theory Spec2Isabelle
  imports Main "HOL-Library.Word"
begin

unbundle bit_operations_syntax

section \<open>Failures\<close>

text \<open>
  The decoder reports every failure by throwing \<open>std::runtime_error\<close> or
  \<open>std::logic_error\<close> with a message.  Each throw site of \<open>ezgz.hpp\<close> is one
  constructor below.  \<open>UndefinedBehaviour\<close> is not a throw of the source: it marks the
  places where the C++ leaves the language (an index outside a \<open>std::array\<close>, a span outside
  its buffer, a shift by a negative amount), so that such an execution is a branch of the model
  and never a value.
\<close>

datatype error =
    UnexpectedEndOfStream      \<comment> \<open>"Unexpected end of stream" (ByteInput::ensureSize)\<close>
  | TruncatedInput             \<comment> \<open>"Truncated input" (IDeflateArchive, span source)\<close>
  | WritingMoreThanAvailable   \<comment> \<open>logic_error "Writing more bytes than available, ..."\<close>
  | ConsumeKeepsTooMuch        \<comment> \<open>logic_error "consume() cannot keep more bytes than it provided before"\<close>
  | LookingBackTooFar          \<comment> \<open>"Looking back too many bytes, corrupted archive or insufficient buffer size"\<close>
  | InvalidLookbackPosition    \<comment> \<open>"Invalid lookback position"\<close>
  | RunOutOfHuffmanCodes       \<comment> \<open>"Bad Huffman encoding, run out of Huffman codes"\<close>
  | UnknownHuffmanCodeFirst    \<comment> \<open>"Unknown Huffman code (not even first 8 bits)"\<close>
  | UnknownHuffmanCodeEnding   \<comment> \<open>"Unknown Huffman code (ending bits don't fit)"\<close>
  | UnknownHuffmanCodePrefix   \<comment> \<open>"Unknown Huffman code (bad prefix)"\<close>
  | CorruptedLiteralLength     \<comment> \<open>"Corrupted data, inverted length of literal block is mismatching"\<close>
  | ImpossibleExtraCodes       \<comment> \<open>"Impossible number of extra codes"\<close>
  | ImpossibleDistanceCodes    \<comment> \<open>"Impossible number of distance codes"\<close>
  | InvalidDistanceCodeCount   \<comment> \<open>"Invalid distance code count"\<close>
  | UnknownBlockCompression    \<comment> \<open>"Unknown type of block compression"\<close>
  | GzipCrcMismatch            \<comment> \<open>"Gzip archive's crc32 checksum doesn't match the calculated checksum"\<close>
  | UndefinedBehaviour

datatype errorKind =
    KindUnexpectedEndOfStream
  | MalformedHeader
  | InvalidHuffmanCode
  | CorruptedLiteralBlock
  | BackReferenceOutOfRange
  | ChecksumMismatch
  | Internal
  | NoKind

text \<open>
  Modelled from the spec: the source has no error kinds, only messages; the classification of
  the throw sites into kinds is the one of the specification's error-handling section
  (bad BTYPE, bad HLIT/HDIST/HCLEN and a leading repeat symbol are \<open>MalformedHeader\<close>, and
  so on).  \<open>TruncatedInput\<close> is the in-memory source's own end-of-data failure and
  \<open>UndefinedBehaviour\<close> has no kind.
\<close>

fun kindOf :: "error \<Rightarrow> errorKind" where
  "kindOf UnexpectedEndOfStream = KindUnexpectedEndOfStream"
| "kindOf TruncatedInput = KindUnexpectedEndOfStream"
| "kindOf WritingMoreThanAvailable = Internal"
| "kindOf ConsumeKeepsTooMuch = Internal"
| "kindOf LookingBackTooFar = BackReferenceOutOfRange"
| "kindOf InvalidLookbackPosition = MalformedHeader"
| "kindOf RunOutOfHuffmanCodes = InvalidHuffmanCode"
| "kindOf UnknownHuffmanCodeFirst = InvalidHuffmanCode"
| "kindOf UnknownHuffmanCodeEnding = InvalidHuffmanCode"
| "kindOf UnknownHuffmanCodePrefix = InvalidHuffmanCode"
| "kindOf CorruptedLiteralLength = CorruptedLiteralBlock"
| "kindOf ImpossibleExtraCodes = MalformedHeader"
| "kindOf ImpossibleDistanceCodes = MalformedHeader"
| "kindOf InvalidDistanceCodeCount = MalformedHeader"
| "kindOf UnknownBlockCompression = MalformedHeader"
| "kindOf GzipCrcMismatch = ChecksumMismatch"
| "kindOf UndefinedBehaviour = NoKind"

section \<open>Memory\<close>

type_synonym byte = "8 word"

text \<open>
  \<open>spanAt xs start n\<close> is the span of \<open>n\<close> elements of the array \<open>xs\<close> that starts at
  index \<open>start\<close>; \<open>arrayAt xs i\<close> is \<open>xs[i]\<close>.  Outside the array both are
  \<open>UndefinedBehaviour\<close>.
\<close>

definition spanAt :: "'a list \<Rightarrow> int \<Rightarrow> int \<Rightarrow> error + 'a list" where
  "spanAt xs start n =
     (if 0 \<le> start \<and> 0 \<le> n \<and> start + n \<le> int (length xs)
      then Inr (take (nat n) (drop (nat start) xs))
      else Inl UndefinedBehaviour)"

definition arrayAt :: "'a list \<Rightarrow> int \<Rightarrow> error + 'a" where
  "arrayAt xs i =
     (if 0 \<le> i \<and> i < int (length xs) then Inr (xs ! nat i) else Inl UndefinedBehaviour)"

text \<open>
  \<open>writeAt xs start ys\<close> stores \<open>ys\<close> into \<open>xs\<close> from index \<open>start\<close> on (a
  \<open>memcpy\<close>/\<open>memmove\<close> into the array, or the bytes a pull callback writes into the span it
  is given).
\<close>

definition writeAt :: "'a list \<Rightarrow> int \<Rightarrow> 'a list \<Rightarrow> error + 'a list" where
  "writeAt xs start ys =
     (if 0 \<le> start \<and> start + int (length ys) \<le> int (length xs)
      then Inr (take (nat start) xs @ ys @ drop (nat start + length ys) xs)
      else Inl UndefinedBehaviour)"

text \<open>Bytes read as a little-endian unsigned integer (\<open>memcpy\<close> into a zeroed integer on a
  little-endian host, the branch of \<open>std::endian::native\<close> that the model follows).\<close>

fun littleEndian :: "byte list \<Rightarrow> int" where
  "littleEndian [] = 0"
| "littleEndian (b # bs) = uint b + 256 * littleEndian bs"

section \<open>ByteInput\<close>

text \<open>
  The pull callback \<open>readMore\<close> is a closure over the data still to deliver.  The two
  in-memory closures of the source are modelled: \<open>ArchiveSpan\<close> is the one of
  \<open>IDeflateArchive(std::span<const uint8_t>)\<close>, which throws when it has nothing to copy,
  and \<open>VectorSpan\<close> the one of \<open>readDeflateIntoVector(std::span<const uint8_t>)\<close>, which
  returns 0 then.
\<close>

datatype Source = ArchiveSpan "byte list" | VectorSpan "byte list"

fun sourceData :: "Source \<Rightarrow> byte list" where
  "sourceData (ArchiveSpan d) = d"
| "sourceData (VectorSpan d) = d"

fun callReadMore :: "Source \<Rightarrow> nat \<Rightarrow> error + (byte list \<times> Source)" where
  "callReadMore (ArchiveSpan d) batchSize =
     (let copying = min batchSize (length d)
      in if copying = 0 then Inl TruncatedInput
         else Inr (take copying d, ArchiveSpan (drop copying d)))"
| "callReadMore (VectorSpan d) batchSize =
     (let filling = min (length d) batchSize
      in Inr (take filling d, VectorSpan (drop filling d)))"

record ByteInput =
  buffer :: "byte list"
  position :: int
  filled :: int
  readMore :: Source

text \<open>\<open>ByteInput(readMoreFunction)\<close> for \<open>Settings::inputBufferSize = n\<close>.\<close>

definition newByteInput :: "nat \<Rightarrow> Source \<Rightarrow> ByteInput" where
  "newByteInput inputBufferSize src =
     \<lparr>buffer = replicate (inputBufferSize + 4) 0, position = 0, filled = 0, readMore = src\<rparr>"

definition refillSome :: "ByteInput \<Rightarrow> error + (int \<times> ByteInput)" where
  "refillSome inp =
     (case (if position inp > int (length (buffer inp)) div 2
            then (case spanAt (buffer inp) (position inp) (filled inp - position inp) of
                    Inl e \<Rightarrow> Inl e
                  | Inr moved \<Rightarrow>
                      (case writeAt (buffer inp) 0 moved of
                         Inl e \<Rightarrow> Inl e
                       | Inr b \<Rightarrow>
                           Inr (inp\<lparr>filled := filled inp - position inp, buffer := b,
                                    position := 0\<rparr>)))
            else Inr inp) of
        Inl e \<Rightarrow> Inl e
      | Inr inp1 \<Rightarrow>
          (case callReadMore (readMore inp1) (nat (int (length (buffer inp1)) - filled inp1)) of
             Inl e \<Rightarrow> Inl e
           | Inr (batch, src) \<Rightarrow>
               (case writeAt (buffer inp1) (filled inp1) batch of
                  Inl e \<Rightarrow> Inl e
                | Inr b \<Rightarrow>
                    Inr (int (length batch),
                         inp1\<lparr>buffer := b, filled := filled inp1 + int (length batch),
                              readMore := src\<rparr>))))"

lemma refillSome_source_decreases:
  assumes "refillSome inp = Inr (added, inp1)" and "added \<noteq> 0"
  shows "length (sourceData (readMore inp1)) < length (sourceData (readMore inp))"
proof -
  have step: "length (sourceData s') < length (sourceData s)"
    if "callReadMore s n = Inr (batch, s')" and "batch \<noteq> []" for s s' n batch
    using that by (cases s) (auto simp: Let_def min_def split: if_splits)
  show ?thesis
    using assms
    by (auto simp: refillSome_def split: if_splits sum.splits prod.splits dest!: step)
qed

function ensureSize :: "int \<Rightarrow> ByteInput \<Rightarrow> error + ByteInput" where
  "ensureSize bytes inp =
     (if position inp + bytes > filled inp
      then (case refillSome inp of
              Inl e \<Rightarrow> Inl e
            | Inr (added, inp1) \<Rightarrow>
                if added = 0 then Inl UnexpectedEndOfStream else ensureSize bytes inp1)
      else Inr inp)"
  by pat_completeness auto
termination
proof (relation "measure (\<lambda>(bytes, inp). length (sourceData (readMore inp)))")
  show "wf (measure (\<lambda>(bytes, inp). length (sourceData (readMore inp))))"
    by simp
next
  fix bytes :: int and inp :: ByteInput and x2 :: "int \<times> ByteInput" and added inp1
  assume "refillSome inp = Inr x2" and "(added, inp1) = x2" and "added \<noteq> 0"
  then have "length (sourceData (readMore inp1)) < length (sourceData (readMore inp))"
    using refillSome_source_decreases [of inp added inp1] by simp
  then show "((bytes, inp1), (bytes, inp))
      \<in> measure (\<lambda>(bytes, inp). length (sourceData (readMore inp)))"
    by simp
qed

declare ensureSize.simps [simp del]

text \<open>\<open>getRange\<close>: may deliver fewer bytes than asked for.\<close>

definition getRange :: "int \<Rightarrow> ByteInput \<Rightarrow> error + (byte list \<times> ByteInput)" where
  "getRange sizeWanted inp =
     (case (if position inp + sizeWanted \<ge> filled inp
            then (case refillSome inp of Inl e \<Rightarrow> Inl e | Inr (added, inp1) \<Rightarrow> Inr inp1)
            else Inr inp) of
        Inl e \<Rightarrow> Inl e
      | Inr inp1 \<Rightarrow>
          (let start = position inp1;
               available = min sizeWanted (filled inp1 - start)
           in case spanAt (buffer inp1) start available of
                Inl e \<Rightarrow> Inl e
              | Inr chunk \<Rightarrow> Inr (chunk, inp1\<lparr>position := position inp1 + available\<rparr>)))"

text \<open>\<open>getInteger<IntType>(bytes)\<close>, and \<open>getBytes(amount)\<close> which is
  \<open>getInteger<int64_t>(amount)\<close>; the value is returned as the unsigned integer it is.\<close>

definition getInteger :: "int \<Rightarrow> ByteInput \<Rightarrow> error + (int \<times> ByteInput)" where
  "getInteger bytes inp =
     (case ensureSize bytes inp of
        Inl e \<Rightarrow> Inl e
      | Inr inp1 \<Rightarrow>
          (case spanAt (buffer inp1) (position inp1) bytes of
             Inl e \<Rightarrow> Inl e
           | Inr bs \<Rightarrow> Inr (littleEndian bs, inp1\<lparr>position := position inp1 + bytes\<rparr>)))"

definition getBytes :: "int \<Rightarrow> ByteInput \<Rightarrow> error + (int \<times> ByteInput)" where
  "getBytes amount inp = getInteger amount inp"

definition returnBytes :: "int \<Rightarrow> ByteInput \<Rightarrow> ByteInput" where
  "returnBytes amount inp = inp\<lparr>position := position inp - amount\<rparr>"

section \<open>BitReader\<close>

text \<open>
  A \<open>BitReader\<close> holds a pointer to the \<open>ByteInput\<close> it reads; it is the only user of that
  input while it lives, so the model stores the input in the reader and hands it back when the
  reader is destroyed (\<open>destroyBitReader\<close>, the destructor's \<open>returnBytes(bitsLeft >> 3)\<close>).
\<close>

record BitReader =
  input :: ByteInput
  bitsLeft :: int
  data :: "64 word"

definition newBitReader :: "ByteInput \<Rightarrow> BitReader" where
  "newBitReader byteInput = \<lparr>input = byteInput, bitsLeft = 0, data = 0\<rparr>"

definition destroyBitReader :: "BitReader \<Rightarrow> ByteInput" where
  "destroyBitReader r = returnBytes (drop_bit 3 (bitsLeft r)) (input r)"

fun littleEndian64 :: "byte list \<Rightarrow> 64 word" where
  "littleEndian64 [] = 0"
| "littleEndian64 (b # bs) = ucast b OR push_bit 8 (littleEndian64 bs)"

definition minimumBits :: int where
  "minimumBits = 16"

definition refillIfNeeded :: "BitReader \<Rightarrow> error + BitReader" where
  "refillIfNeeded r =
     (if bitsLeft r < minimumBits
      then (case getRange (8 - minimumBits div 8) (input r) of
              Inl e \<Rightarrow> Inl e
            | Inr (added, inp) \<Rightarrow>
                if bitsLeft r < 0 then Inl UndefinedBehaviour
                else Inr (r\<lparr>input := inp,
                           data := data r + push_bit (nat (bitsLeft r)) (littleEndian64 added),
                           bitsLeft := bitsLeft r + push_bit 3 (int (length added))\<rparr>))
      else Inr r)"

definition upperRemovals :: "16 word list" where
  "upperRemovals = [0x0000, 0x0001, 0x0003, 0x0007, 0x000f, 0x001f, 0x003f, 0x007f, 0x00ff,
     0x01ff, 0x03ff, 0x07ff, 0x0fff, 0x1fff, 0x3fff, 0x7fff, 0xffff]"

definition reversedBytes :: "byte list" where
  "reversedBytes = [
     0, 128, 64, 192, 32, 160, 96, 224, 16, 144, 80, 208, 48, 176, 112, 240,
     8, 136, 72, 200, 40, 168, 104, 232, 24, 152, 88, 216, 56, 184, 120, 248,
     4, 132, 68, 196, 36, 164, 100, 228, 20, 148, 84, 212, 52, 180, 116, 244,
     12, 140, 76, 204, 44, 172, 108, 236, 28, 156, 92, 220, 60, 188, 124, 252,
     2, 130, 66, 194, 34, 162, 98, 226, 18, 146, 82, 210, 50, 178, 114, 242,
     10, 138, 74, 202, 42, 170, 106, 234, 26, 154, 90, 218, 58, 186, 122, 250,
     6, 134, 70, 198, 38, 166, 102, 230, 22, 150, 86, 214, 54, 182, 118, 246,
     14, 142, 78, 206, 46, 174, 110, 238, 30, 158, 94, 222, 62, 190, 126, 254,
     1, 129, 65, 193, 33, 161, 97, 225, 17, 145, 81, 209, 49, 177, 113, 241,
     9, 137, 73, 201, 41, 169, 105, 233, 25, 153, 89, 217, 57, 185, 121, 249,
     5, 133, 69, 197, 37, 165, 101, 229, 21, 149, 85, 213, 53, 181, 117, 245,
     13, 141, 77, 205, 45, 173, 109, 237, 29, 157, 93, 221, 61, 189, 125, 253,
     3, 131, 67, 195, 35, 163, 99, 227, 19, 147, 83, 211, 51, 179, 115, 243,
     11, 139, 75, 203, 43, 171, 107, 235, 27, 155, 91, 219, 59, 187, 123, 251,
     7, 135, 71, 199, 39, 167, 103, 231, 23, 151, 87, 215, 55, 183, 119, 247,
     15, 143, 79, 207, 47, 175, 111, 239, 31, 159, 95, 223, 63, 191, 127, 255]"

text \<open>\<open>reversedBytes[uint8_t(data)]\<close>: the index is a byte, always inside the table.\<close>

definition reversedByte :: "64 word \<Rightarrow> byte" where
  "reversedByte d = reversedBytes ! unat (ucast d :: byte)"

text \<open>A \<open>BitGroup\<close> without its parent pointer: the functions that extend it take the
  reader.\<close>

record BitGroup =
  groupData :: "64 word"
  bits :: int

text \<open>\<open>getBits(amount)\<close>: up to 8 bits, the first bit read in the most significant place.\<close>

definition getBits :: "int \<Rightarrow> BitReader \<Rightarrow> error + (BitGroup \<times> BitReader)" where
  "getBits amount r =
     (case refillIfNeeded r of
        Inl e \<Rightarrow> Inl e
      | Inr r1 \<Rightarrow>
          if amount < 0 \<or> 8 < amount then Inl UndefinedBehaviour
          else Inr (\<lparr>groupData = ucast (drop_bit (nat (8 - amount)) (reversedByte (data r1))),
                     bits = amount\<rparr>,
                    r1\<lparr>data := drop_bit (nat amount) (data r1),
                       bitsLeft := bitsLeft r1 - amount\<rparr>))"

definition getMore :: "int \<Rightarrow> BitGroup \<Rightarrow> BitReader \<Rightarrow> error + (BitGroup \<times> BitReader)" where
  "getMore amount g r =
     (case getBits amount r of
        Inl e \<Rightarrow> Inl e
      | Inr (added, r1) \<Rightarrow>
          Inr (\<lparr>groupData = push_bit (nat amount) (groupData g) OR groupData added,
                 bits = bits g + amount\<rparr>, r1))"

text \<open>\<open>getBitsForwardOrder(amount)\<close>: up to 16 bits in stream order; \<open>upperRemovals\<close> has
  17 entries.\<close>

definition getBitsForwardOrder :: "int \<Rightarrow> BitReader \<Rightarrow> error + (int \<times> BitReader)" where
  "getBitsForwardOrder amount r =
     (case refillIfNeeded r of
        Inl e \<Rightarrow> Inl e
      | Inr r1 \<Rightarrow>
          (case arrayAt upperRemovals amount of
             Inl e \<Rightarrow> Inl e
           | Inr removal \<Rightarrow>
               Inr (uint ((ucast (data r1) :: 16 word) AND removal),
                    r1\<lparr>data := drop_bit (nat amount) (data r1),
                       bitsLeft := bitsLeft r1 - amount\<rparr>)))"

text \<open>\<open>peekAByteAndConsumeSome\<close>: the functor sees the reversed low byte and returns how many
  bits to consume, together with whatever it assigns to the variables it captures; it may
  throw.\<close>

definition peekAByteAndConsumeSome ::
  "(byte \<Rightarrow> error + (int \<times> 'a)) \<Rightarrow> BitReader \<Rightarrow> error + ('a \<times> BitReader)" where
  "peekAByteAndConsumeSome readAndTellHowMuchToConsume r =
     (case refillIfNeeded r of
        Inl e \<Rightarrow> Inl e
      | Inr r1 \<Rightarrow>
          (case readAndTellHowMuchToConsume (reversedByte (data r1)) of
             Inl e \<Rightarrow> Inl e
           | Inr (consumed, captured) \<Rightarrow>
               if consumed < 0 then Inl UndefinedBehaviour
               else Inr (captured,
                         r1\<lparr>data := drop_bit (nat consumed) (data r1),
                            bitsLeft := bitsLeft r1 - consumed\<rparr>)))"

text \<open>\<open>parseLongerSize\<close>: the length of a match from the length symbol minus 254 (11..31).\<close>

definition parseLongerSize :: "int \<Rightarrow> BitReader \<Rightarrow> error + (int \<times> BitReader)" where
  "parseLongerSize partOfSize r =
     (if partOfSize \<noteq> 31
      then (let size0 = partOfSize;
                nextBits = drop_bit 2 (size0 - 7)
            in case getBitsForwardOrder nextBits r of
                 Inl e \<Rightarrow> Inl e
               | Inr (additionalBits, r1) \<Rightarrow>
                   (let size1 = size0 + 1
                    in Inr ((push_bit (nat nextBits) (size1 AND 3) OR additionalBits)
                              + (push_bit (nat (drop_bit 2 size1)) 1 + 3), r1)))
      else Inr (258, r))"

definition distanceOffsets :: "int list" where
  "distanceOffsets = [1, 2, 3, 4, 5, 7, 9, 13, 17, 25, 33,
     49, 65, 97, 129, 193, 257, 385, 513, 769, 1025, 1537, 2049, 3073, 4097, 6145, 8193, 12289,
     16385, 24577]"

text \<open>\<open>parseLongerDistance\<close>: the distance from the distance symbol plus one.  The source
  indexes \<open>distanceOffsets\<close> without a check.  For the arguments 31 and 32 (the distance
  symbols 30 and 31) the index is outside the table: the program goes on with whatever it finds
  behind the table, plus the extra bits.  The model has no value for a read outside an array,
  here as elsewhere: it ends with \<open>UndefinedBehaviour\<close>, so a result \<open>Inr\<close> is always the
  distance of a symbol inside the table.\<close>

definition parseLongerDistance :: "int \<Rightarrow> BitReader \<Rightarrow> error + (int \<times> BitReader)" where
  "parseLongerDistance partOfDistance r =
     (let readMoreBits = drop_bit 1 (partOfDistance - 3)
      in case getBitsForwardOrder readMoreBits r of
           Inl e \<Rightarrow> Inl e
         | Inr (moreBits, r1) \<Rightarrow>
             (case arrayAt distanceOffsets (partOfDistance - 1) of
                Inl e \<Rightarrow> Inl e
              | Inr offset \<Rightarrow> Inr (offset + moreBits, r1)))"

section \<open>Settings and checksums\<close>

text \<open>
  The template parameter \<open>Settings\<close>: the buffer sizes, \<open>verifyChecksum\<close>, and the
  \<open>Checksum\<close> type given by its initial state (\<open>Checksum{}\<close>), its fold
  (\<open>operator()(std::span<const uint8_t>)\<close>, as the state it leaves) and its digest
  (\<open>operator()()\<close>).
\<close>

record 'c Settings =
  maxOutputBufferSize :: int
  minOutputBufferSize :: int
  inputBufferSize :: int
  verifyChecksum :: bool
  checksumInit :: 'c
  checksumFold :: "'c \<Rightarrow> byte list \<Rightarrow> 'c"
  checksumDigest :: "'c \<Rightarrow> int"

text \<open>\<open>generateBasicCrc32LookupTable\<close> and \<open>LightCrc32\<close>.\<close>

definition reversedPolynomial :: "32 word" where
  "reversedPolynomial = 0xedb88320"

definition crcTableEntry :: "nat \<Rightarrow> 32 word" where
  "crcTableEntry i =
     ((\<lambda>x. drop_bit 1 x XOR ((x AND 1) * reversedPolynomial)) ^^ 8) (word_of_nat i)"

definition basicCrc32LookupTable :: "32 word list" where
  "basicCrc32LookupTable = map crcTableEntry [0..<256]"

definition lightCrc32Step :: "32 word \<Rightarrow> byte \<Rightarrow> 32 word" where
  "lightCrc32Step state it =
     (let tableIndex = (ucast (state XOR ucast it) :: byte)
      in drop_bit 8 state XOR basicCrc32LookupTable ! unat tableIndex)"

definition lightCrc32Fold :: "32 word \<Rightarrow> byte list \<Rightarrow> 32 word" where
  "lightCrc32Fold state inputBytes = foldl lightCrc32Step state inputBytes"

text \<open>\<open>MinDecompressionSettings\<close> (with \<open>NoChecksum\<close>) and the sizes and
  \<open>verifyChecksum\<close> of \<open>DefaultDecompressionSettings\<close> with \<open>LightCrc32\<close> as its
  checksum (the source's default is \<open>FastCrc32\<close>, which is not modelled).\<close>

definition MinDecompressionSettings :: "unit Settings" where
  "MinDecompressionSettings =
     \<lparr>maxOutputBufferSize = 32768 * 2 + 258,
      minOutputBufferSize = min 32768 ((32768 * 2 + 258) div 2),
      inputBufferSize = 33000,
      verifyChecksum = False,
      checksumInit = (),
      checksumFold = (\<lambda>c bs. c),
      checksumDigest = (\<lambda>c. 0)\<rparr>"

definition LightCrcSettings :: "32 word Settings" where
  "LightCrcSettings =
     \<lparr>maxOutputBufferSize = 100000,
      minOutputBufferSize = min 32768 ((32768 * 2 + 258) div 2),
      inputBufferSize = 100000,
      verifyChecksum = True,
      checksumInit = 0xffffffff,
      checksumFold = lightCrc32Fold,
      checksumDigest = (\<lambda>state. uint (NOT state))\<rparr>"

section \<open>ByteOutput\<close>

record 'c ByteOutput =
  outBuffer :: "byte list"
  used :: int
  consumed :: int
  expectsMore :: bool
  checksum :: 'c

definition newByteOutput :: "'c Settings \<Rightarrow> 'c ByteOutput" where
  "newByteOutput S =
     \<lparr>outBuffer = replicate (nat (maxOutputBufferSize S)) 0, used = 0, consumed = 0,
      expectsMore = True, checksum = checksumInit S\<rparr>"

definition checkSize :: "int \<Rightarrow> 'c ByteOutput \<Rightarrow> error + unit" where
  "checkSize added out =
     (if used out + added > int (length (outBuffer out)) then Inl WritingMoreThanAvailable
      else Inr ())"

definition available :: "'c ByteOutput \<Rightarrow> int" where
  "available out = int (length (outBuffer out)) - used out"

definition consume :: "'c Settings \<Rightarrow> int \<Rightarrow> 'c ByteOutput \<Rightarrow> error + (byte list \<times> 'c ByteOutput)" where
  "consume S bytesToKeep out =
     (if \<not> expectsMore out
      then (case spanAt (outBuffer out) (consumed out) (used out - consumed out) of
              Inl e \<Rightarrow> Inl e
            | Inr returning \<Rightarrow>
                Inr (returning,
                     out\<lparr>checksum := checksumFold S (checksum out) returning,
                         consumed := used out\<rparr>))
      else (let bytesKept0 = min bytesToKeep (consumed out);
                removing0 = consumed out - bytesKept0;
                minimum = minOutputBufferSize S - used out + consumed out;
                bytesKept = (if bytesKept0 < minimum then minimum else bytesKept0);
                removing = (if bytesKept0 < minimum then consumed out - bytesKept else removing0)
            in if removing < 0 then Inl ConsumeKeepsTooMuch
               else (case spanAt (outBuffer out) removing (used out - removing) of
                       Inl e \<Rightarrow> Inl e
                     | Inr moved \<Rightarrow>
                         (case writeAt (outBuffer out) 0 moved of
                            Inl e \<Rightarrow> Inl e
                          | Inr b \<Rightarrow>
                              (let used1 = used out - removing;
                                   consumed1 = used1
                               in case spanAt b bytesKept (consumed1 - bytesKept) of
                                    Inl e \<Rightarrow> Inl e
                                  | Inr batch \<Rightarrow>
                                      Inr (batch,
                                           out\<lparr>outBuffer := b, used := used1,
                                               consumed := consumed1,
                                               checksum := checksumFold S (checksum out) batch\<rparr>))))))"

definition addByte :: "byte \<Rightarrow> 'c ByteOutput \<Rightarrow> error + 'c ByteOutput" where
  "addByte b out =
     (case checkSize 1 out of
        Inl e \<Rightarrow> Inl e
      | Inr u \<Rightarrow>
          (case writeAt (outBuffer out) (used out) [b] of
             Inl e \<Rightarrow> Inl e
           | Inr buf \<Rightarrow> Inr (out\<lparr>outBuffer := buf, used := used out + 1\<rparr>)))"

definition addBytes :: "byte list \<Rightarrow> 'c ByteOutput \<Rightarrow> error + 'c ByteOutput" where
  "addBytes bs out =
     (case checkSize (int (length bs)) out of
        Inl e \<Rightarrow> Inl e
      | Inr u \<Rightarrow>
          (case writeAt (outBuffer out) (used out) bs of
             Inl e \<Rightarrow> Inl e
           | Inr buf \<Rightarrow> Inr (out\<lparr>outBuffer := buf, used := used out + int (length bs)\<rparr>)))"

text \<open>
  The loop of \<open>repeatSequence\<close>.  With \<open>distance = 0\<close> it writes nothing and never ends,
  so the loop is a partial function: \<open>None\<close> is "does not return".  A negative \<open>distance\<close>
  makes the size given to \<open>memmove\<close> negative.
\<close>

partial_function (option) repeatLoop ::
  "int \<Rightarrow> int \<Rightarrow> int \<Rightarrow> 'c ByteOutput \<Rightarrow> (error + 'c ByteOutput) option" where
  "repeatLoop len distance written out =
     (if written < len
      then (if distance > used out then Some (Inl LookingBackTooFar)
            else (let toWrite = min distance (len - written)
                  in case spanAt (outBuffer out) (used out - distance) toWrite of
                       Inl e \<Rightarrow> Some (Inl e)
                     | Inr moved \<Rightarrow>
                         (case writeAt (outBuffer out) (used out) moved of
                            Inl e \<Rightarrow> Some (Inl e)
                          | Inr buf \<Rightarrow>
                              repeatLoop len distance (written + toWrite)
                                (out\<lparr>outBuffer := buf, used := used out + toWrite\<rparr>))))
      else Some (Inr out))"

declare repeatLoop.simps [code]

definition repeatSequence :: "int \<Rightarrow> int \<Rightarrow> 'c ByteOutput \<Rightarrow> (error + 'c ByteOutput) option" where
  "repeatSequence len distance out =
     (case checkSize len out of
        Inl e \<Rightarrow> Some (Inl e)
      | Inr u \<Rightarrow> repeatLoop len distance 0 out)"

text \<open>\<open>done()\<close> (the name is an Isabelle keyword).\<close>

definition outputDone :: "'c ByteOutput \<Rightarrow> 'c ByteOutput" where
  "outputDone out = out\<lparr>expectsMore := False\<rparr>"

section \<open>The block substates of DeflateReader\<close>

text \<open>Conversion of a \<open>uint64_t\<close> to \<open>int\<close> (32 bits, two's complement).\<close>

definition toInt :: "64 word \<Rightarrow> int" where
  "toInt w = sint (ucast w :: 32 word)"

subsection \<open>CopyState\<close>

record CopyState =
  copyDistance :: int
  copyLength :: int

text \<open>\<open>restart\<close> and \<open>copy\<close> return whether the copy is complete.\<close>

definition restart ::
  "'c ByteOutput \<Rightarrow> 'a CopyState_scheme
     \<Rightarrow> (error + (bool \<times> 'a CopyState_scheme \<times> 'c ByteOutput)) option" where
  "restart out st =
     (let copying = min (available out) (copyLength st)
      in case repeatSequence copying (copyDistance st) out of
           None \<Rightarrow> None
         | Some (Inl e) \<Rightarrow> Some (Inl e)
         | Some (Inr out1) \<Rightarrow>
             (let st1 = st\<lparr>copyLength := copyLength st - copying\<rparr>
              in Some (Inr (copyLength st1 = 0, st1, out1))))"

definition copy ::
  "'c ByteOutput \<Rightarrow> int \<Rightarrow> int \<Rightarrow> 'a CopyState_scheme
     \<Rightarrow> (error + (bool \<times> 'a CopyState_scheme \<times> 'c ByteOutput)) option" where
  "copy out len distance st = restart out (st\<lparr>copyLength := len, copyDistance := distance\<rparr>)"

subsection \<open>LiteralState\<close>

record LiteralState =
  bytesLeft :: int

text \<open>The constructor \<open>LiteralState(parent)\<close> reads LEN and NLEN from the parent's
  \<open>ByteInput\<close>.\<close>

definition newLiteralState :: "ByteInput \<Rightarrow> error + (LiteralState \<times> ByteInput)" where
  "newLiteralState inp =
     (case getBytes 2 inp of
        Inl e \<Rightarrow> Inl e
      | Inr (len, inp1) \<Rightarrow>
          (case getBytes 2 inp1 of
             Inl e \<Rightarrow> Inl e
           | Inr (antiLength, inp2) \<Rightarrow>
               if (NOT len AND 0xffff) \<noteq> antiLength then Inl CorruptedLiteralLength
               else Inr (\<lparr>bytesLeft = len\<rparr>, inp2)))"

text \<open>\<open>LiteralState::parseSome\<close>; the parent is its input and its output.\<close>

definition literalParseSome ::
  "LiteralState \<Rightarrow> ByteInput \<Rightarrow> 'c ByteOutput
     \<Rightarrow> error + (bool \<times> LiteralState \<times> ByteInput \<times> 'c ByteOutput)" where
  "literalParseSome st inp out =
     (if available out > bytesLeft st
      then (case getRange (bytesLeft st) inp of
              Inl e \<Rightarrow> Inl e
            | Inr (chunk, inp1) \<Rightarrow>
                (case addBytes chunk out of
                   Inl e \<Rightarrow> Inl e
                 | Inr out1 \<Rightarrow>
                     (let st1 = st\<lparr>bytesLeft := bytesLeft st - int (length chunk)\<rparr>
                      in Inr (bytesLeft st1 > 0, st1, inp1, out1))))
      else (case getRange (available out) inp of
              Inl e \<Rightarrow> Inl e
            | Inr (chunk, inp1) \<Rightarrow>
                (let st1 = st\<lparr>bytesLeft := bytesLeft st - int (length chunk)\<rparr>
                 in case addBytes chunk out of
                      Inl e \<Rightarrow> Inl e
                    | Inr out1 \<Rightarrow> Inr (True, st1, inp1, out1))))"

subsection \<open>FixedCodeState\<close>

record FixedCodeState = CopyState +
  fixedInput :: BitReader

definition newFixedCodeState :: "BitReader \<Rightarrow> FixedCodeState" where
  "newFixedCodeState r = \<lparr>copyDistance = 0, copyLength = 0, fixedInput = r\<rparr>"

text \<open>
  The length of a match, from the 7 bits that are neither the end of the block nor a literal
  (the \<open>else\<close> branch of the loop up to the call of \<open>parseLongerSize\<close>).  The source
  compares with the literal \<open>0010111\<close>, which C++ reads as octal: its value is 4169.
\<close>

definition fixedLength :: "BitGroup \<Rightarrow> BitReader \<Rightarrow> error + (int \<times> BitReader)" where
  "fixedLength part r =
     (case (if groupData part \<le> 4169
            then Inr (toInt (groupData part + 2), r)
            else (case getMore 1 part r of
                    Inl e \<Rightarrow> Inl e
                  | Inr (part1, r1) \<Rightarrow> Inr (toInt (groupData part1 + (25 - 0b11000000)), r1))) of
        Inl e \<Rightarrow> Inl e
      | Inr (size0, r1) \<Rightarrow> if size0 > 10 then parseLongerSize size0 r1 else Inr (size0, r1))"

text \<open>The distance of a match: 5 bits, plus one, and more bits beyond 4.\<close>

definition fixedDistance :: "BitReader \<Rightarrow> error + (int \<times> BitReader)" where
  "fixedDistance r =
     (case getBits 5 r of
        Inl e \<Rightarrow> Inl e
      | Inr (readingDistance, r1) \<Rightarrow>
          (let distance = toInt (groupData readingDistance + 1)
           in if distance > 4 then parseLongerDistance distance r1 else Inr (distance, r1)))"

text \<open>The \<open>while (parent->output.available())\<close> loop of \<open>FixedCodeState::parseSome\<close> and
  the \<open>return\<close> after it.\<close>

partial_function (option) fixedLoop ::
  "FixedCodeState \<Rightarrow> 'c ByteOutput \<Rightarrow> (error + (bool \<times> FixedCodeState \<times> 'c ByteOutput)) option" where
  "fixedLoop st out =
     (if available out \<noteq> 0
      then (case getBits 7 (fixedInput st) of
              Inl e \<Rightarrow> Some (Inl e)
            | Inr (part, r1) \<Rightarrow>
                if groupData part = 0 then Some (Inr (False, st\<lparr>fixedInput := r1\<rparr>, out))
                else if groupData part \<ge> 0b0011000 \<and> groupData part \<le> 0b1011111
                then (case getMore 1 part r1 of
                        Inl e \<Rightarrow> Some (Inl e)
                      | Inr (part1, r2) \<Rightarrow>
                          (case addByte (ucast (groupData part1 - 0b00110000)) out of
                             Inl e \<Rightarrow> Some (Inl e)
                           | Inr out1 \<Rightarrow> fixedLoop (st\<lparr>fixedInput := r2\<rparr>) out1))
                else if groupData part \<ge> 0b1100100
                then (case getMore 2 part r1 of
                        Inl e \<Rightarrow> Some (Inl e)
                      | Inr (part1, r2) \<Rightarrow>
                          (case addByte (ucast (groupData part1 - (0b110010000 - 144))) out of
                             Inl e \<Rightarrow> Some (Inl e)
                           | Inr out1 \<Rightarrow> fixedLoop (st\<lparr>fixedInput := r2\<rparr>) out1))
                else (case fixedLength part r1 of
                        Inl e \<Rightarrow> Some (Inl e)
                      | Inr (size0, r2) \<Rightarrow>
                          (case fixedDistance r2 of
                             Inl e \<Rightarrow> Some (Inl e)
                           | Inr (distance, r3) \<Rightarrow>
                               (case copy out size0 distance (st\<lparr>fixedInput := r3\<rparr>) of
                                  None \<Rightarrow> None
                                | Some (Inl e) \<Rightarrow> Some (Inl e)
                                | Some (Inr (complete, st1, out1)) \<Rightarrow> fixedLoop st1 out1))))
      else Some (Inr (available out = 0, st, out)))"

declare fixedLoop.simps [code]

definition fixedParseSome ::
  "FixedCodeState \<Rightarrow> 'c ByteOutput \<Rightarrow> (error + (bool \<times> FixedCodeState \<times> 'c ByteOutput)) option" where
  "fixedParseSome st out =
     (if copyLength st > 0
      then (case restart out st of
              None \<Rightarrow> None
            | Some (Inl e) \<Rightarrow> Some (Inl e)
            | Some (Inr (complete, st1, out1)) \<Rightarrow>
                if complete then Some (Inr (True, st1, out1)) else fixedLoop st1 out1)
      else fixedLoop st out)"

section \<open>EncodedTable\<close>

text \<open>Loops over an index range whose body may fail, and stores into arrays.\<close>

fun forEach :: "'i list \<Rightarrow> ('i \<Rightarrow> 's \<Rightarrow> error + 's) \<Rightarrow> 's \<Rightarrow> error + 's" where
  "forEach [] body s = Inr s"
| "forEach (x # xs) body s =
     (case body x s of Inl e \<Rightarrow> Inl e | Inr s1 \<Rightarrow> forEach xs body s1)"

definition arrayUpdate :: "'a list \<Rightarrow> int \<Rightarrow> ('a \<Rightarrow> 'a) \<Rightarrow> error + 'a list" where
  "arrayUpdate xs i f =
     (if 0 \<le> i \<and> i < int (length xs) then Inr (xs[nat i := f (xs ! nat i)])
      else Inl UndefinedBehaviour)"

definition arraySet :: "'a list \<Rightarrow> int \<Rightarrow> 'a \<Rightarrow> error + 'a list" where
  "arraySet xs i v = arrayUpdate xs i (\<lambda>old. v)"

record CodeEntry =
  code :: "16 word"
  codeLength :: "8 word"

record CodeRemainder =
  remainder :: "8 word"
  remainderBitsLeft :: "8 word"
  index :: "16 word"

record EncodedTable =
  codes :: "CodeEntry list"
  remainders :: "CodeRemainder list"
  codesIndex :: "int list"

record UnindexedEntry =
  quantity :: int
  startIndex :: int
  filledEntries :: int

definition UNINDEXED :: int where
  "UNINDEXED = -1"

definition UNUSED :: int where
  "UNUSED = -2"

definition codeCodingReorder :: "int list" where
  "codeCodingReorder = [16, 17, 18, 0, 8, 7, 9, 6, 10, 5, 11, 4, 12, 3, 13, 2, 14, 1, 15]"

text \<open>\<open>for (int j = i; j < i + n; j++) codes[j].length = v\<close>\<close>

definition fillLengths :: "CodeEntry list \<Rightarrow> int \<Rightarrow> int \<Rightarrow> 8 word \<Rightarrow> error + CodeEntry list" where
  "fillLengths cs i n v = forEach [i..i + n - 1] (\<lambda>j c. arrayUpdate c j (\<lambda>e. e\<lparr>codeLength := v\<rparr>)) cs"

lemma getBitsForwardOrder_nonneg:
  "getBitsForwardOrder amount r = Inr (v, r1) \<Longrightarrow> 0 \<le> v"
  by (auto simp: getBitsForwardOrder_def split: sum.splits)

text \<open>
  The first statement of the loop "Read the Huffman-encoded Huffman codes": the functor given to
  \<open>peekAByteAndConsumeSome\<close> assigns \<open>length\<close> and returns
  \<open>codeCodingLengths[length]\<close>.
\<close>

definition peekCodeLength :: "byte list \<Rightarrow> byte list \<Rightarrow> BitReader \<Rightarrow> error + (int \<times> BitReader)" where
  "peekCodeLength codeCodingLookup codeCodingLengths reader =
     peekAByteAndConsumeSome
       (\<lambda>peeked. case arrayAt codeCodingLookup (uint peeked) of
                    Inl e \<Rightarrow> Inl e
                  | Inr len \<Rightarrow>
                      (case arrayAt codeCodingLengths (uint len) of
                         Inl e \<Rightarrow> Inl e
                       | Inr n \<Rightarrow> Inr (uint n, uint len)))
       reader"

text \<open>The first loop of the constructor, from position \<open>i\<close> on.\<close>

function readCodeLengths ::
  "int \<Rightarrow> byte list \<Rightarrow> byte list \<Rightarrow> int \<Rightarrow> CodeEntry list \<Rightarrow> int list \<Rightarrow> BitReader
     \<Rightarrow> error + (CodeEntry list \<times> int list \<times> BitReader)" where
  "readCodeLengths realSize codeCodingLookup codeCodingLengths i cs quantities reader =
     (if i < realSize
      then (case peekCodeLength codeCodingLookup codeCodingLengths reader of
              Inl e \<Rightarrow> Inl e
            | Inr (len, reader1) \<Rightarrow>
                if len < 16
                then (case arrayUpdate cs i (\<lambda>e. e\<lparr>codeLength := word_of_int len\<rparr>) of
                        Inl e \<Rightarrow> Inl e
                      | Inr cs1 \<Rightarrow>
                          (case arrayUpdate quantities len (\<lambda>q. q + 1) of
                             Inl e \<Rightarrow> Inl e
                           | Inr quantities1 \<Rightarrow>
                               readCodeLengths realSize codeCodingLookup codeCodingLengths
                                 (i + 1) cs1 quantities1 reader1))
                else if len = 16
                then (if i = 0 then Inl InvalidLookbackPosition
                      else (case getBitsForwardOrder 2 reader1 of
                              Inl e \<Rightarrow> Inl e
                            | Inr (v, reader2) \<Rightarrow>
                                (case arrayAt cs (i - 1) of
                                   Inl e \<Rightarrow> Inl e
                                 | Inr previous \<Rightarrow>
                                     (case fillLengths cs i (v + 3) (codeLength previous) of
                                        Inl e \<Rightarrow> Inl e
                                      | Inr cs1 \<Rightarrow>
                                          (case arrayUpdate quantities (uint (codeLength previous))
                                                  (\<lambda>q. q + (v + 3)) of
                                             Inl e \<Rightarrow> Inl e
                                           | Inr quantities1 \<Rightarrow>
                                               readCodeLengths realSize codeCodingLookup
                                                 codeCodingLengths (i + (v + 3)) cs1 quantities1
                                                 reader2)))))
                else (case (if len = 17
                            then (case getBitsForwardOrder 3 reader1 of
                                    Inl e \<Rightarrow> Inl e
                                  | Inr (v, reader2) \<Rightarrow> Inr (v + 3, reader2))
                            else (case getBitsForwardOrder 7 reader1 of
                                    Inl e \<Rightarrow> Inl e
                                  | Inr (sevenBitsValue, reader2) \<Rightarrow>
                                      Inr (sevenBitsValue + 11, reader2))) of
                        Inl e \<Rightarrow> Inl e
                      | Inr (zeroCount, reader2) \<Rightarrow>
                          (case fillLengths cs i zeroCount 0 of
                             Inl e \<Rightarrow> Inl e
                           | Inr cs1 \<Rightarrow>
                               readCodeLengths realSize codeCodingLookup codeCodingLengths
                                 (i + zeroCount) cs1 quantities reader2)))
      else Inr (cs, quantities, reader))"
  by pat_completeness auto
termination
proof (relation "measure (\<lambda>(realSize, lookup, lengths, i, cs, quantities, reader). nat (realSize - i))",
    goal_cases)
  case 1
  show ?case by simp
next
  case 2
  then show ?case by simp
next
  case (3 realSize codeCodingLookup codeCodingLengths i cs quantities reader x2 len reader1 x2a v
      reader2)
  then have "0 \<le> v"
    using getBitsForwardOrder_nonneg [of 2 reader1 v reader2] by simp
  with 3 show ?case by simp
next
  case (4 realSize codeCodingLookup codeCodingLengths i cs quantities reader x2 len reader1 x2a
      zeroCount reader2)
  then have "3 \<le> zeroCount"
    by (auto split: if_splits sum.splits dest: getBitsForwardOrder_nonneg)
  with 4 show ?case by simp
qed

declare readCodeLengths.simps [simp del]

text \<open>
  "Generate the codes": the body of the loop over \<open>i\<close> for one \<open>size\<close>, on the arrays
  \<open>codes\<close>, \<open>codesIndex\<close>, \<open>unindexedEntries\<close> and the counter \<open>nextCode\<close>.
\<close>

definition assignCode ::
  "int \<Rightarrow> int \<Rightarrow> CodeEntry list \<times> int list \<times> UnindexedEntry list \<times> int
     \<Rightarrow> error + (CodeEntry list \<times> int list \<times> UnindexedEntry list \<times> int)" where
  "assignCode size0 i = (\<lambda>(cs, ci, ue, nextCode).
     case arrayAt cs i of
       Inl e \<Rightarrow> Inl e
     | Inr entry \<Rightarrow>
         if uint (codeLength entry) = size0
         then (if nextCode \<ge> push_bit (nat size0) 1 then Inl RunOutOfHuffmanCodes
               else (case arrayUpdate cs i (\<lambda>e. e\<lparr>code := word_of_int nextCode\<rparr>) of
                       Inl e \<Rightarrow> Inl e
                     | Inr cs1 \<Rightarrow>
                         (case (if size0 \<le> 8
                                then (let c = uint (word_of_int nextCode :: 16 word)
                                      in case forEach
                                                [push_bit (nat (8 - size0)) c
                                                  .. push_bit (nat (8 - size0)) (c + 1) - 1]
                                                (\<lambda>k idx. arraySet idx k i) ci of
                                           Inl e \<Rightarrow> Inl e
                                         | Inr ci1 \<Rightarrow> Inr (ci1, ue))
                                else (let startPart = drop_bit (nat (size0 - 8)) nextCode
                                      in case arraySet ci startPart UNINDEXED of
                                           Inl e \<Rightarrow> Inl e
                                         | Inr ci1 \<Rightarrow>
                                             (case arrayUpdate ue startPart
                                                     (\<lambda>u. u\<lparr>quantity := quantity u + 1\<rparr>) of
                                                Inl e \<Rightarrow> Inl e
                                              | Inr ue1 \<Rightarrow> Inr (ci1, ue1)))) of
                            Inl e \<Rightarrow> Inl e
                          | Inr (ci1, ue1) \<Rightarrow> Inr (cs1, ci1, ue1, nextCode + 1))))
         else Inr (cs, ci, ue, nextCode))"

definition generateCodes ::
  "int \<Rightarrow> int list \<Rightarrow> CodeEntry list \<times> int list \<times> UnindexedEntry list \<times> int
     \<Rightarrow> error + (CodeEntry list \<times> int list \<times> UnindexedEntry list \<times> int)" where
  "generateCodes realSize quantities =
     forEach [1..16] (\<lambda>size0 (cs, ci, ue, nextCode).
       case arrayAt quantities size0 of
         Inl e \<Rightarrow> Inl e
       | Inr q \<Rightarrow>
           (case (if q > 0 then forEach [0..realSize] (assignCode size0) (cs, ci, ue, nextCode)
                  else Inr (cs, ci, ue, nextCode)) of
              Inl e \<Rightarrow> Inl e
            | Inr (cs1, ci1, ue1, nextCode1) \<Rightarrow> Inr (cs1, ci1, ue1, push_bit 1 nextCode1)))"

text \<open>"Calculate ranges of the longer parts".\<close>

fun assignStartIndexes :: "int \<Rightarrow> UnindexedEntry list \<Rightarrow> UnindexedEntry list" where
  "assignStartIndexes currentStartIndex [] = []"
| "assignStartIndexes currentStartIndex (entry # rest) =
     entry\<lparr>startIndex := currentStartIndex\<rparr>
       # assignStartIndexes (currentStartIndex + quantity entry) rest"

text \<open>"Index the longer parts": the body of the loop for one \<open>i\<close>.\<close>

definition indexLonger ::
  "int \<Rightarrow> int \<Rightarrow> CodeEntry list \<times> CodeRemainder list \<times> int list \<times> UnindexedEntry list
     \<Rightarrow> error + (CodeEntry list \<times> CodeRemainder list \<times> int list \<times> UnindexedEntry list)" where
  "indexLonger MaxSize i = (\<lambda>(cs, rems, ci, ue).
     case arrayAt cs i of
       Inl e \<Rightarrow> Inl e
     | Inr entry \<Rightarrow>
         if uint (codeLength entry) > 8
         then (let idx = drop_bit (nat (uint (codeLength entry) - 8)) (uint (code entry))
               in case arrayAt ue idx of
                    Inl e \<Rightarrow> Inl e
                  | Inr unindexedEntry \<Rightarrow>
                      (let filled1 = filledEntries unindexedEntry + 1;
                           rem = \<lparr>remainder =
                                    word_of_int (push_bit (nat (16 - uint (codeLength entry)))
                                                   (uint (code entry))),
                                  remainderBitsLeft = codeLength entry - 8,
                                  index = (if filled1 = quantity unindexedEntry
                                           then word_of_int i OR 0x8000 else word_of_int i)\<rparr>
                       in case arraySet rems
                                 (startIndex unindexedEntry + filledEntries unindexedEntry) rem of
                            Inl e \<Rightarrow> Inl e
                          | Inr rems1 \<Rightarrow>
                              (case arraySet ci idx (MaxSize + startIndex unindexedEntry) of
                                 Inl e \<Rightarrow> Inl e
                               | Inr ci1 \<Rightarrow>
                                   (case arraySet ue idx
                                           (unindexedEntry\<lparr>filledEntries := filled1\<rparr>) of
                                      Inl e \<Rightarrow> Inl e
                                    | Inr ue1 \<Rightarrow> Inr (cs, rems1, ci1, ue1)))))
         else Inr (cs, rems, ci, ue))"

text \<open>The constructor \<open>EncodedTable<MaxSize>(reader, realSize, codeCodingLookup,
  codeCodingLengths)\<close>; the reader is returned as the constructor leaves it.\<close>

definition newEncodedTable ::
  "int \<Rightarrow> BitReader \<Rightarrow> int \<Rightarrow> byte list \<Rightarrow> byte list \<Rightarrow> error + (EncodedTable \<times> BitReader)" where
  "newEncodedTable MaxSize reader realSize codeCodingLookup codeCodingLengths =
     (case readCodeLengths realSize codeCodingLookup codeCodingLengths 0
             (replicate (nat MaxSize) \<lparr>code = 0, codeLength = 0\<rparr>) (replicate 17 0) reader of
        Inl e \<Rightarrow> Inl e
      | Inr (cs, quantities, reader1) \<Rightarrow>
          (case generateCodes realSize quantities
                  (cs, replicate 256 UNUSED,
                   replicate 256 \<lparr>quantity = 0, startIndex = 0, filledEntries = 0\<rparr>, 0) of
             Inl e \<Rightarrow> Inl e
           | Inr (cs1, ci1, ue1, nextCode) \<Rightarrow>
               (case forEach [0..MaxSize - 1] (indexLonger MaxSize)
                       (cs1,
                        replicate (nat MaxSize)
                          \<lparr>remainder = 0, remainderBitsLeft = 0, index = 0\<rparr>,
                        ci1, assignStartIndexes 0 ue1) of
                  Inl e \<Rightarrow> Inl e
                | Inr (cs2, rems2, ci2, ue2) \<Rightarrow>
                    Inr (\<lparr>codes = cs2, remainders = rems2, codesIndex = ci2\<rparr>, reader1))))"

definition startMasks :: "8 word list" where
  "startMasks = [0x00, 0x80, 0xc0, 0xe0, 0xf0, 0xf8, 0xfc, 0xfe, 0xff]"

text \<open>The loop inside the second functor of \<open>readWord\<close>: it returns the bits to consume and
  the word.\<close>

function searchRemainders ::
  "int \<Rightarrow> EncodedTable \<Rightarrow> byte \<Rightarrow> int \<Rightarrow> error + (int \<times> int)" where
  "searchRemainders MaxSize t peeked i =
     (if i < MaxSize * 2
      then (case arrayAt (remainders t) i of
              Inl e \<Rightarrow> Inl e
            | Inr rem \<Rightarrow>
                (case arrayAt startMasks (uint (remainderBitsLeft rem)) of
                   Inl e \<Rightarrow> Inl e
                 | Inr startMask \<Rightarrow>
                     if (peeked AND startMask) = remainder rem
                     then Inr (uint (remainderBitsLeft rem), uint (index rem AND 0x7fff))
                     else if index rem AND 0x8000 \<noteq> 0 then Inl UnknownHuffmanCodeEnding
                     else searchRemainders MaxSize t peeked (i + 1)))
      else Inl UnknownHuffmanCodePrefix)"
  by pat_completeness auto
termination
  by (relation "measure (\<lambda>(MaxSize, t, peeked, i). nat (MaxSize * 2 - i))") auto

declare searchRemainders.simps [simp del]

definition readWord :: "int \<Rightarrow> EncodedTable \<Rightarrow> BitReader \<Rightarrow> error + (int \<times> BitReader)" where
  "readWord MaxSize t reader =
     (case peekAByteAndConsumeSome
             (\<lambda>peeked. case arrayAt (codesIndex t) (uint peeked) of
                          Inl e \<Rightarrow> Inl e
                        | Inr word \<Rightarrow>
                            if word \<ge> MaxSize then Inr (8, word)
                            else if word = UNUSED then Inl UnknownHuffmanCodeFirst
                            else (case arrayAt (codes t) word of
                                    Inl e \<Rightarrow> Inl e
                                  | Inr entry \<Rightarrow> Inr (uint (codeLength entry), word)))
             reader of
        Inl e \<Rightarrow> Inl e
      | Inr (word, reader1) \<Rightarrow>
          if word \<ge> MaxSize
          then peekAByteAndConsumeSome
                 (\<lambda>peeked. searchRemainders MaxSize t peeked (word - MaxSize)) reader1
          else Inr (word, reader1))"

subsection \<open>DynamicCodeState\<close>

record DynamicCodeState = CopyState +
  dynamicInput :: BitReader
  codesTable :: EncodedTable
  distanceCode :: EncodedTable

definition newDynamicCodeState ::
  "BitReader \<Rightarrow> int \<Rightarrow> int \<Rightarrow> byte list \<Rightarrow> byte list \<Rightarrow> error + DynamicCodeState" where
  "newDynamicCodeState inputMoved codeCount distanceCodeCount codeCodingLookup codeCodingLengths =
     (case newEncodedTable 288 inputMoved codeCount codeCodingLookup codeCodingLengths of
        Inl e \<Rightarrow> Inl e
      | Inr (t1, r1) \<Rightarrow>
          (case newEncodedTable 31 r1 distanceCodeCount codeCodingLookup codeCodingLengths of
             Inl e \<Rightarrow> Inl e
           | Inr (t2, r2) \<Rightarrow>
               Inr \<lparr>copyDistance = 0, copyLength = 0, dynamicInput = r2, codesTable = t1,
                    distanceCode = t2\<rparr>))"

text \<open>The length of a match from its symbol (\<open>int length = word - 254\<close> and the call of
  \<open>parseLongerSize\<close>), and the distance (\<open>distanceCode.readWord() + 1\<close> and the call of
  \<open>parseLongerDistance\<close>).\<close>

definition dynamicLength :: "int \<Rightarrow> BitReader \<Rightarrow> error + (int \<times> BitReader)" where
  "dynamicLength word r =
     (let len = word - 254 in if len > 10 then parseLongerSize len r else Inr (len, r))"

definition dynamicDistance :: "EncodedTable \<Rightarrow> BitReader \<Rightarrow> error + (int \<times> BitReader)" where
  "dynamicDistance t r =
     (case readWord 31 t r of
        Inl e \<Rightarrow> Inl e
      | Inr (word, r1) \<Rightarrow>
          (let distance = word + 1
           in if distance > 4 then parseLongerDistance distance r1 else Inr (distance, r1)))"

partial_function (option) dynamicLoop ::
  "DynamicCodeState \<Rightarrow> 'c ByteOutput
     \<Rightarrow> (error + (bool \<times> DynamicCodeState \<times> 'c ByteOutput)) option" where
  "dynamicLoop st out =
     (if available out \<noteq> 0
      then (case readWord 288 (codesTable st) (dynamicInput st) of
              Inl e \<Rightarrow> Some (Inl e)
            | Inr (word, r1) \<Rightarrow>
                if word < 256
                then (case addByte (word_of_int word) out of
                        Inl e \<Rightarrow> Some (Inl e)
                      | Inr out1 \<Rightarrow> dynamicLoop (st\<lparr>dynamicInput := r1\<rparr>) out1)
                else if word = 256
                then Some (Inr (available out = 0, st\<lparr>dynamicInput := r1\<rparr>, out))
                else (case dynamicLength word r1 of
                        Inl e \<Rightarrow> Some (Inl e)
                      | Inr (len, r2) \<Rightarrow>
                          (case dynamicDistance (distanceCode st) r2 of
                             Inl e \<Rightarrow> Some (Inl e)
                           | Inr (distance, r3) \<Rightarrow>
                               (case copy out len distance (st\<lparr>dynamicInput := r3\<rparr>) of
                                  None \<Rightarrow> None
                                | Some (Inl e) \<Rightarrow> Some (Inl e)
                                | Some (Inr (complete, st1, out1)) \<Rightarrow> dynamicLoop st1 out1))))
      else Some (Inr (available out = 0, st, out)))"

declare dynamicLoop.simps [code]

definition dynamicParseSome ::
  "DynamicCodeState \<Rightarrow> 'c ByteOutput
     \<Rightarrow> (error + (bool \<times> DynamicCodeState \<times> 'c ByteOutput)) option" where
  "dynamicParseSome st out =
     (if copyLength st > 0
      then (case restart out st of
              None \<Rightarrow> None
            | Some (Inl e) \<Rightarrow> Some (Inl e)
            | Some (Inr (complete, st1, out1)) \<Rightarrow>
                if complete then Some (Inr (True, st1, out1)) else dynamicLoop st1 out1)
      else dynamicLoop st out)"

section \<open>DeflateReader\<close>

datatype DecodingState =
    Monostate
  | Literal LiteralState
  | Fixed FixedCodeState
  | Dynamic DynamicCodeState

text \<open>
  \<open>DeflateReader\<close> holds references to the \<open>ByteInput\<close> and the \<open>ByteOutput\<close> of the
  archive; the model stores them.  While a fixed or dynamic substate lives, its
  \<open>BitReader\<close> owns the input and \<open>dInput\<close> is the input as it was when that reader was
  made; it is written back when the reader is destroyed.
\<close>

record 'c DeflateReader =
  dInput :: ByteInput
  dOutput :: "'c ByteOutput"
  decodingState :: DecodingState
  wasLast :: bool

definition newDeflateReader :: "ByteInput \<Rightarrow> 'c ByteOutput \<Rightarrow> 'c DeflateReader" where
  "newDeflateReader inp out =
     \<lparr>dInput = inp, dOutput = out, decodingState = Monostate, wasLast = False\<rparr>"

text \<open>"Read lengths": HLIT, HDIST and HCLEN with their range checks; the result is
  \<open>extraCodes\<close>, \<open>distanceCodes\<close> and \<open>codeLengthCount\<close>.\<close>

definition readDynamicCounts :: "BitReader \<Rightarrow> error + ((int \<times> int \<times> int) \<times> BitReader)" where
  "readDynamicCounts bitInput =
     (case getBitsForwardOrder 5 bitInput of
        Inl e \<Rightarrow> Inl e
      | Inr (extraCodes, r1) \<Rightarrow>
          if extraCodes > 29 then Inl ImpossibleExtraCodes
          else (case getBitsForwardOrder 5 r1 of
                  Inl e \<Rightarrow> Inl e
                | Inr (v, r2) \<Rightarrow>
                    (let distanceCodes = v + 1
                     in if distanceCodes > 31 then Inl ImpossibleDistanceCodes
                        else (case getBitsForwardOrder 4 r2 of
                                Inl e \<Rightarrow> Inl e
                              | Inr (w, r3) \<Rightarrow>
                                  (let codeLengthCount = w + 4
                                   in if codeLengthCount > 19 then Inl InvalidDistanceCodeCount
                                      else Inr ((extraCodes, distanceCodes, codeLengthCount),
                                                r3))))))"

text \<open>"Read Huffman code lengths".\<close>

definition readCodeCodingLengths :: "int \<Rightarrow> BitReader \<Rightarrow> error + (byte list \<times> BitReader)" where
  "readCodeCodingLengths codeLengthCount bitInput =
     forEach [0..codeLengthCount - 1]
       (\<lambda>i (codeCodingLengths, r).
          case getBitsForwardOrder 3 r of
            Inl e \<Rightarrow> Inl e
          | Inr (v, r1) \<Rightarrow>
              (case arrayAt codeCodingReorder i of
                 Inl e \<Rightarrow> Inl e
               | Inr k \<Rightarrow>
                   (case arraySet codeCodingLengths k (word_of_int v) of
                      Inl e \<Rightarrow> Inl e
                    | Inr codeCodingLengths1 \<Rightarrow> Inr (codeCodingLengths1, r1))))
       (replicate 19 0, bitInput)"

text \<open>"Generate Huffman codes for lengths": the result is \<open>codeCodingLookup\<close>.\<close>

definition generateCodeCoding :: "byte list \<Rightarrow> error + byte list" where
  "generateCodeCoding codeCodingLengths =
     (case forEach [1..8]
             (\<lambda>size0 (codeCoding, codeCodingLookup, nextCodeCoding).
                case forEach [0..18]
                       (\<lambda>i (codeCoding, codeCodingLookup, nextCodeCoding).
                          case arrayAt codeCodingLengths i of
                            Inl e \<Rightarrow> Inl e
                          | Inr l \<Rightarrow>
                              if uint l = size0
                              then (case arraySet codeCoding i nextCodeCoding of
                                      Inl e \<Rightarrow> Inl e
                                    | Inr codeCoding1 \<Rightarrow>
                                        (case forEach
                                                [push_bit (nat (8 - size0)) nextCodeCoding
                                                  .. push_bit (nat (8 - size0)) (nextCodeCoding + 1) - 1]
                                                (\<lambda>k lookup. arraySet lookup k (word_of_int i))
                                                codeCodingLookup of
                                           Inl e \<Rightarrow> Inl e
                                         | Inr lookup1 \<Rightarrow>
                                             Inr (codeCoding1, lookup1, nextCodeCoding + 1)))
                              else Inr (codeCoding, codeCodingLookup, nextCodeCoding))
                       (codeCoding, codeCodingLookup, nextCodeCoding) of
                  Inl e \<Rightarrow> Inl e
                | Inr (codeCoding1, lookup1, next1) \<Rightarrow> Inr (codeCoding1, lookup1, push_bit 1 next1))
             (replicate 19 (0 :: int), replicate 256 (0 :: byte), 0 :: int) of
        Inl e \<Rightarrow> Inl e
      | Inr (codeCoding, codeCodingLookup, nextCodeCoding) \<Rightarrow> Inr codeCodingLookup)"

text \<open>The branch of \<open>compressionType == 0b01\<close>: the header of a dynamic block is read
  and the \<open>DynamicCodeState\<close> is constructed.\<close>

definition dynamicBlock :: "BitReader \<Rightarrow> error + DynamicCodeState" where
  "dynamicBlock bitInput =
     (case readDynamicCounts bitInput of
        Inl e \<Rightarrow> Inl e
      | Inr ((extraCodes, distanceCodes, codeLengthCount), r3) \<Rightarrow>
          (case readCodeCodingLengths codeLengthCount r3 of
             Inl e \<Rightarrow> Inl e
           | Inr (codeCodingLengths, r4) \<Rightarrow>
               (case generateCodeCoding codeCodingLengths of
                  Inl e \<Rightarrow> Inl e
                | Inr codeCodingLookup \<Rightarrow>
                    newDynamicCodeState r4 (257 + extraCodes) distanceCodes codeCodingLookup
                      codeCodingLengths)))"

text \<open>
  The part of \<open>DeflateReader::parseSome\<close> after "No decoding state" when the last block has
  not been seen: the block header is read from \<open>bitInput\<close> and the substate is constructed.
\<close>

definition startBlock :: "BitReader \<Rightarrow> 'c DeflateReader \<Rightarrow> error + 'c DeflateReader" where
  "startBlock bitInput d =
     (case getBits 1 bitInput of
        Inl e \<Rightarrow> Inl e
      | Inr (lastBit, r1) \<Rightarrow>
          (let d1 = d\<lparr>wasLast := (groupData lastBit \<noteq> 0)\<rparr>
           in case getBits 2 r1 of
                Inl e \<Rightarrow> Inl e
              | Inr (compressionType, r2) \<Rightarrow>
                  if groupData compressionType = 0b00
                  then (case newLiteralState (destroyBitReader r2) of
                          Inl e \<Rightarrow> Inl e
                        | Inr (st, inp) \<Rightarrow> Inr (d1\<lparr>dInput := inp, decodingState := Literal st\<rparr>))
                  else if groupData compressionType = 0b10
                  then Inr (d1\<lparr>decodingState := Fixed (newFixedCodeState r2)\<rparr>)
                  else if groupData compressionType = 0b01
                  then (case dynamicBlock r2 of
                          Inl e \<Rightarrow> Inl e
                        | Inr st \<Rightarrow> Inr (d1\<lparr>decodingState := Dynamic st\<rparr>))
                  else Inl UnknownBlockCompression))"

text \<open>
  The first part of an iteration of \<open>DeflateReader::parseSome\<close>: the substate is driven; the
  result is whether it yielded, and the \<open>bitInput\<close> on which the iteration goes on.
\<close>

definition driveState ::
  "'c DeflateReader \<Rightarrow> (error + (bool \<times> 'c DeflateReader \<times> BitReader)) option" where
  "driveState d =
     (case decodingState d of
        Literal st \<Rightarrow>
          (case literalParseSome st (dInput d) (dOutput d) of
             Inl e \<Rightarrow> Some (Inl e)
           | Inr (yielded, st1, inp1, out1) \<Rightarrow>
               Some (Inr (yielded, d\<lparr>dInput := inp1, dOutput := out1, decodingState := Literal st1\<rparr>,
                          newBitReader inp1)))
      | Fixed st \<Rightarrow>
          (case fixedParseSome st (dOutput d) of
             None \<Rightarrow> None
           | Some (Inl e) \<Rightarrow> Some (Inl e)
           | Some (Inr (yielded, st1, out1)) \<Rightarrow>
               Some (Inr (yielded, d\<lparr>dOutput := out1, decodingState := Fixed st1\<rparr>, fixedInput st1)))
      | Dynamic st \<Rightarrow>
          (case dynamicParseSome st (dOutput d) of
             None \<Rightarrow> None
           | Some (Inl e) \<Rightarrow> Some (Inl e)
           | Some (Inr (yielded, st1, out1)) \<Rightarrow>
               Some (Inr (yielded, d\<lparr>dOutput := out1, decodingState := Dynamic st1\<rparr>,
                          dynamicInput st1)))
      | Monostate \<Rightarrow> Some (Inr (False, d, newBitReader (dInput d))))"

partial_function (option) parseSome ::
  "'c DeflateReader \<Rightarrow> (error + (bool \<times> 'c DeflateReader)) option" where
  "parseSome d =
     (case driveState d of
        None \<Rightarrow> None
      | Some (Inl e) \<Rightarrow> Some (Inl e)
      | Some (Inr (yielded, d1, bitInput)) \<Rightarrow>
          if yielded then Some (Inr (True, d1))
          else (let d2 = d1\<lparr>decodingState := Monostate\<rparr>
                in if wasLast d2
                   then Some (Inr (False, d2\<lparr>dOutput := outputDone (dOutput d2),
                                            dInput := destroyBitReader bitInput\<rparr>))
                   else (case startBlock bitInput d2 of
                           Inl e \<Rightarrow> Some (Inl e)
                         | Inr d3 \<Rightarrow> parseSome d3)))"

declare parseSome.simps [code]

section \<open>IDeflateArchive and IGzFile\<close>

record 'c IDeflateArchive =
  deflateReader :: "'c DeflateReader"
  archiveDone :: bool

definition newIDeflateArchive :: "'c Settings \<Rightarrow> Source \<Rightarrow> 'c IDeflateArchive" where
  "newIDeflateArchive S src =
     \<lparr>deflateReader = newDeflateReader (newByteInput (nat (inputBufferSize S)) src) (newByteOutput S),
      archiveDone = False\<rparr>"

text \<open>The virtual \<open>onFinish\<close>: empty in \<open>IDeflateArchive\<close>, the trailer's CRC-32 in
  \<open>IGzFile\<close>.\<close>

definition onFinishDeflate :: "'c DeflateReader \<Rightarrow> error + 'c DeflateReader" where
  "onFinishDeflate d = Inr d"

definition onFinishGz :: "'c Settings \<Rightarrow> 'c DeflateReader \<Rightarrow> error + 'c DeflateReader" where
  "onFinishGz S d =
     (case getInteger 4 (dInput d) of
        Inl e \<Rightarrow> Inl e
      | Inr (expectedCrc, inp) \<Rightarrow>
          if verifyChecksum S
          then (let realCrc = checksumDigest S (checksum (dOutput d))
                in if expectedCrc \<noteq> realCrc then Inl GzipCrcMismatch
                   else Inr (d\<lparr>dInput := inp\<rparr>))
          else Inr (d\<lparr>dInput := inp\<rparr>))"

definition readSome ::
  "'c Settings \<Rightarrow> ('c DeflateReader \<Rightarrow> error + 'c DeflateReader) \<Rightarrow> int \<Rightarrow> 'c IDeflateArchive
     \<Rightarrow> (error + (byte list option \<times> 'c IDeflateArchive)) option" where
  "readSome S onFinish bytesToKeep a =
     (if archiveDone a then Some (Inr (None, a))
      else (case parseSome (deflateReader a) of
              None \<Rightarrow> None
            | Some (Inl e) \<Rightarrow> Some (Inl e)
            | Some (Inr (moreStuffToDo, d1)) \<Rightarrow>
                (case consume S bytesToKeep (dOutput d1) of
                   Inl e \<Rightarrow> Some (Inl e)
                 | Inr (batch, out1) \<Rightarrow>
                     (let d2 = d1\<lparr>dOutput := out1\<rparr>
                      in if \<not> moreStuffToDo
                         then (case onFinish d2 of
                                 Inl e \<Rightarrow> Some (Inl e)
                               | Inr d3 \<Rightarrow>
                                   Some (Inr (Some batch,
                                              a\<lparr>deflateReader := d3, archiveDone := True\<rparr>)))
                         else Some (Inr (Some batch, a\<lparr>deflateReader := d2\<rparr>))))))"

subsection \<open>readByLines\<close>

text \<open>
  The \<open>for\<close> loop over one batch: \<open>it\<close> and \<open>start\<close> are positions in the batch, and the
  calls of \<open>reader\<close> are collected, each with the bytes of the span it is given.
\<close>

definition lineStep ::
  "byte list \<Rightarrow> byte \<Rightarrow> nat \<Rightarrow> nat \<times> bool \<times> byte list list \<Rightarrow> nat \<times> bool \<times> byte list list" where
  "lineStep batch separator it = (\<lambda>(start, wasSeparator, calls).
     (let start1 = (if wasSeparator then it else start);
          wasSeparator1 = (if wasSeparator then False else wasSeparator)
      in if batch ! it = separator
         then (start1, True, calls @ [take (it - start1) (drop start1 batch)])
         else (start1, wasSeparator1, calls)))"

definition scanBatch ::
  "byte list \<Rightarrow> byte \<Rightarrow> bool \<Rightarrow> byte list list \<Rightarrow> nat \<times> bool \<times> byte list list" where
  "scanBatch batch separator wasSeparator calls =
     fold (lineStep batch separator) [0..<length batch] (0, wasSeparator, calls)"

text \<open>The code after the \<open>while\<close> loop.\<close>

definition finishLines :: "int \<Rightarrow> byte list \<Rightarrow> bool \<Rightarrow> byte list list \<Rightarrow> byte list list" where
  "finishLines keeping batch wasSeparator calls =
     (if keeping > 0
      then (if wasSeparator then calls @ [[]]
            else calls @ [drop (length batch - nat keeping) batch])
      else calls)"

text \<open>
  The \<open>while\<close> loop of \<open>readByLines\<close> over any \<open>readSome\<close> (a function of
  \<open>bytesToKeep\<close> and the archive), and \<open>readByLines\<close> itself; the result is the list of
  the spans \<open>reader\<close> was called with, in order.
\<close>

partial_function (option) readLinesLoop ::
  "(int \<Rightarrow> 'a \<Rightarrow> (error + (byte list option \<times> 'a)) option) \<Rightarrow> byte \<Rightarrow> int \<Rightarrow> byte list \<Rightarrow> bool
     \<Rightarrow> byte list list \<Rightarrow> 'a \<Rightarrow> (error + (byte list list \<times> 'a)) option" where
  "readLinesLoop readSomeOf separator keeping batch wasSeparator calls a =
     (case readSomeOf keeping a of
        None \<Rightarrow> None
      | Some (Inl e) \<Rightarrow> Some (Inl e)
      | Some (Inr (None, a1)) \<Rightarrow> Some (Inr (finishLines keeping batch wasSeparator calls, a1))
      | Some (Inr (Some batch1, a1)) \<Rightarrow>
          (case scanBatch batch1 separator wasSeparator calls of
             (start, wasSeparator1, calls1) \<Rightarrow>
               readLinesLoop readSomeOf separator (int (length batch1) - int start) batch1
                 wasSeparator1 calls1 a1))"

declare readLinesLoop.simps [code]

definition readByLines ::
  "(int \<Rightarrow> 'a \<Rightarrow> (error + (byte list option \<times> 'a)) option) \<Rightarrow> byte \<Rightarrow> 'a
     \<Rightarrow> (error + (byte list list \<times> 'a)) option" where
  "readByLines readSomeOf separator a = readLinesLoop readSomeOf separator 0 [] False [] a"

text \<open>\<open>readDeflateIntoVector\<close>: the loop, on a reader; the result is the vector.\<close>

partial_function (option) readDeflateLoop ::
  "'c Settings \<Rightarrow> byte list \<Rightarrow> 'c DeflateReader \<Rightarrow> (error + byte list) option" where
  "readDeflateLoop S result d =
     (case parseSome d of
        None \<Rightarrow> None
      | Some (Inl e) \<Rightarrow> Some (Inl e)
      | Some (Inr (workToDo, d1)) \<Rightarrow>
          (case consume S 0 (dOutput d1) of
             Inl e \<Rightarrow> Some (Inl e)
           | Inr (batch, out1) \<Rightarrow>
               if workToDo then readDeflateLoop S (result @ batch) (d1\<lparr>dOutput := out1\<rparr>)
               else Some (Inr (result @ batch))))"

declare readDeflateLoop.simps [code]

definition readDeflateIntoVector :: "'c Settings \<Rightarrow> byte list \<Rightarrow> (error + byte list) option" where
  "readDeflateIntoVector S allData =
     readDeflateLoop S []
       (newDeflateReader (newByteInput (nat (inputBufferSize S)) (VectorSpan allData))
          (newByteOutput S))"

section \<open>Example states\<close>

text \<open>A settings object with small buffers and no checksum, and readers whose register already
  holds the bits of the examples (no refill is needed: \<open>bitsLeft\<close> is at least 16).\<close>

definition smallSettings :: "unit Settings" where
  "smallSettings =
     \<lparr>maxOutputBufferSize = 16, minOutputBufferSize = 8, inputBufferSize = 8,
      verifyChecksum = False, checksumInit = (), checksumFold = (\<lambda>c bs. c),
      checksumDigest = (\<lambda>c. 0)\<rparr>"

definition registerReader :: "64 word \<Rightarrow> BitReader" where
  "registerReader d = \<lparr>input = newByteInput 0 (VectorSpan []), bitsLeft = 32, data = d\<rparr>"

definition registerReaderAfter :: "nat \<Rightarrow> 64 word \<Rightarrow> BitReader" where
  "registerReaderAfter n d =
     \<lparr>input = newByteInput 0 (VectorSpan []), bitsLeft = 32 - int n, data = drop_bit n d\<rparr>"

text \<open>Settings with small buffers and \<open>LightCrc32\<close>, with and without the verification,
  and a GZIP member after its header: the final fixed block 4B 04 00 of the text "a", the
  CRC-32 E8B7BE43 of "a" and the ISIZE 1. The states of its reader are named by the position of
  the input, the \<open>consumed\<close> index of the output and the state of the checksum.\<close>

definition crcSettings :: "32 word Settings" where
  "crcSettings =
     \<lparr>maxOutputBufferSize = 16, minOutputBufferSize = 8, inputBufferSize = 12,
      verifyChecksum = True, checksumInit = 0xffffffff, checksumFold = lightCrc32Fold,
      checksumDigest = (\<lambda>state. uint (NOT state))\<rparr>"

definition gzipMemberA :: "byte list" where
  "gzipMemberA = [0x4B, 0x04, 0x00, 0x43, 0xBE, 0xB7, 0xE8, 0x01, 0x00, 0x00, 0x00]"

definition gzipArchive :: "32 word IDeflateArchive" where
  "gzipArchive = newIDeflateArchive crcSettings (ArchiveSpan gzipMemberA)"

definition gzipInputAt :: "int \<Rightarrow> ByteInput" where
  "gzipInputAt p = \<lparr>buffer = gzipMemberA @ replicate 5 0, position = p, filled = 11,
                     readMore = ArchiveSpan []\<rparr>"

definition gzipOutput :: "int \<Rightarrow> 32 word \<Rightarrow> 32 word ByteOutput" where
  "gzipOutput c crc = \<lparr>outBuffer = 97 # replicate 15 0, used = 1, consumed = c,
                        expectsMore = False, checksum = crc\<rparr>"

definition gzipReader :: "int \<Rightarrow> int \<Rightarrow> 32 word \<Rightarrow> 32 word DeflateReader" where
  "gzipReader p c crc = \<lparr>dInput = gzipInputAt p, dOutput = gzipOutput c crc,
                          decodingState = Monostate, wasLast = True\<rparr>"

definition looseSettings :: "32 word Settings" where
  "looseSettings = crcSettings\<lparr>verifyChecksum := False\<rparr>"

text \<open>A GZIP member after its header: the final fixed block of the 9 literals of
  \<open>gzipTextB\<close>, their CRC-32 BC5FD307 and the ISIZE 9; and the settings of \<open>crcSettings\<close>
  with an input buffer that holds the whole member.\<close>

definition gzipMemberB :: "byte list" where
  "gzipMemberB = [0x4B, 0x3E, 0x99, 0xFC, 0x2C, 0xE9, 0xD9, 0xB3, 0x67, 0x27, 0x00,
                  0x07, 0xD3, 0x5F, 0xBC, 0x09, 0x00, 0x00, 0x00]"

definition gzipTextB :: "byte list" where
  "gzipTextB = [0x63, 0xC9, 0x63, 0xE6, 0x62, 0xE6, 0xE6, 0xE6, 0xC8]"

definition wideCrcSettings :: "32 word Settings" where
  "wideCrcSettings = crcSettings\<lparr>inputBufferSize := 28\<rparr>"

text \<open>A final stored block of the 20 bytes 1, ..., 20, settings under which it takes three
  calls, the states of the input while it is read (named by the position), the same input with
  a wrong NLEN, and the output object as \<open>consume\<close> leaves it before each of the calls.\<close>

definition storedSettings :: "unit Settings" where
  "storedSettings = smallSettings\<lparr>inputBufferSize := 28\<rparr>"

definition storedStream :: "byte list" where
  "storedStream = [0x01, 20, 0, 0xEB, 0xFF] @ map of_nat [1..<21]"

definition storedInput :: "int \<Rightarrow> ByteInput" where
  "storedInput p = \<lparr>buffer = storedStream @ replicate 7 0, position = p, filled = 25,
                     readMore = VectorSpan []\<rparr>"

definition storedInputEnd :: ByteInput where
  "storedInputEnd = \<lparr>buffer = [17, 18, 19, 20] @ drop 4 (storedStream @ replicate 7 0),
                      position = 4, filled = 4, readMore = VectorSpan []\<rparr>"

definition corruptInput :: "int \<Rightarrow> ByteInput" where
  "corruptInput p = (storedInput p)\<lparr>buffer := (buffer (storedInput p))[3 := 0xEA]\<rparr>"

definition storedOutputs :: "unit ByteOutput list" where
  "storedOutputs =
     [newByteOutput storedSettings,
      \<lparr>outBuffer = map of_nat [1..<17], used = 16, consumed = 16, expectsMore = True,
       checksum = ()\<rparr>,
      \<lparr>outBuffer = map of_nat [9..<17] @ map of_nat [9..<17], used = 8, consumed = 8,
       expectsMore = True, checksum = ()\<rparr>]"

text \<open>A fixed block of the literals "db ebedae" followed by a final stored block of "hello",
  settings with an input buffer of 16 bytes, and the reader of the stream under them.\<close>

definition compactingSettings :: "unit Settings" where
  "compactingSettings = smallSettings\<lparr>inputBufferSize := 12\<rparr>"

definition fixedThenStored :: "byte list" where
  "fixedThenStored = [0x4A, 0x49, 0x52, 0x48, 0x4D, 0x4A, 0x4D, 0x49, 0x4C, 0x05, 0x04,
                      0x05, 0x00, 0xFA, 0xFF, 0x68, 0x65, 0x6C, 0x6C, 0x6F]"

definition fixedThenStoredReader :: "unit DeflateReader" where
  "fixedThenStoredReader =
     newDeflateReader
       (newByteInput (nat (inputBufferSize compactingSettings)) (VectorSpan fixedThenStored))
       (newByteOutput compactingSettings)"

section \<open>The input that is still to be read\<close>

text \<open>The bytes a \<open>ByteInput\<close> has not handed out yet: those of its buffer between
  \<open>position\<close> and \<open>filled\<close>, followed by what its source still holds. The indexes of a
  well-formed input lie inside its buffer.\<close>

definition wfInput :: "ByteInput \<Rightarrow> bool" where
  "wfInput inp \<longleftrightarrow>
     0 \<le> position inp \<and> position inp \<le> filled inp \<and> filled inp \<le> int (length (buffer inp))"

definition unread :: "ByteInput \<Rightarrow> byte list" where
  "unread inp = take (nat (filled inp - position inp)) (drop (nat (position inp)) (buffer inp))"

definition pending :: "ByteInput \<Rightarrow> byte list" where
  "pending inp = unread inp @ sourceData (readMore inp)"

section \<open>The bytes of the output\<close>

text \<open>The valid bytes of the output buffer, and what a step has put behind them.\<close>

definition emitted :: "'c ByteOutput \<Rightarrow> byte list" where
  "emitted out = take (nat (used out)) (outBuffer out)"

definition appended :: "'c ByteOutput \<Rightarrow> 'c ByteOutput \<Rightarrow> byte list" where
  "appended out out1 = drop (nat (used out)) (emitted out1)"

text \<open>Calls of \<open>LiteralState::parseSome\<close> one after the other, as long as it yields. The
  list holds the output object as the consumer has left it before each call; the result is what
  the calls have put into them, whether the last call yielded, and the state and the input that
  are left.\<close>

fun literalCalls ::
  "'c ByteOutput list \<Rightarrow> LiteralState \<Rightarrow> ByteInput
     \<Rightarrow> error + (byte list \<times> bool \<times> LiteralState \<times> ByteInput)" where
  "literalCalls [] st inp = Inr ([], True, st, inp)"
| "literalCalls (out # outs) st inp =
     (case literalParseSome st inp out of
        Inl e \<Rightarrow> Inl e
      | Inr (yielded, st1, inp1, out1) \<Rightarrow>
          if yielded
          then (case literalCalls outs st1 inp1 of
                  Inl e \<Rightarrow> Inl e
                | Inr (rest, yielded2, st2, inp2) \<Rightarrow>
                    Inr (appended out out1 @ rest, yielded2, st2, inp2))
          else Inr (appended out out1, False, st1, inp1))"

section \<open>The lines of a text\<close>

text \<open>The parts into which the separators divide a text (\<open>splitFrom\<close> with the part read so
  far), the parts of a text that is not empty and none for the empty text, and the payloads
  joined again with the separator between them.\<close>

fun splitFrom :: "byte \<Rightarrow> byte list \<Rightarrow> byte list \<Rightarrow> byte list list" where
  "splitFrom separator cur [] = [cur]"
| "splitFrom separator cur (x # xs) =
     (if x = separator then cur # splitFrom separator [] xs
      else splitFrom separator (cur @ [x]) xs)"

fun joinPayloads :: "byte \<Rightarrow> byte list list \<Rightarrow> byte list" where
  "joinPayloads separator [] = []"
| "joinPayloads separator [p] = p"
| "joinPayloads separator (p # q # ps) = p @ separator # joinPayloads separator (q # ps)"

definition linesOf :: "byte \<Rightarrow> byte list \<Rightarrow> byte list list" where
  "linesOf separator whole = (if whole = [] then [] else splitFrom separator [] whole)"

text \<open>An archive of the text "ab", two separators, "cd" (a final fixed block), and the archive
  after its only batch has been read.\<close>

definition linesArchive :: "unit IDeflateArchive" where
  "linesArchive =
     newIDeflateArchive smallSettings (VectorSpan [0x4B, 0x4C, 0xE2, 0xE2, 0x4A, 0x4E, 0x01, 0x00])"

definition linesArchiveDone :: "unit IDeflateArchive" where
  "linesArchiveDone =
     (case readSome smallSettings onFinishDeflate 0 linesArchive of
        Some (Inr (batch, a)) \<Rightarrow> a
      | _ \<Rightarrow> linesArchive)"

section \<open>Sessions of the output\<close>

text \<open>
  A well-formed output has its indexes in order and inside the buffer.  \<open>lzExtend\<close> appends
  the bytes of a match of RFC 1951 one by one, each a copy of the byte \<open>distance\<close> places
  before the end.  A session is a sequence of calls of the public members of \<open>ByteOutput\<close>;
  with the output it keeps the stream the calls have emitted, as their arguments say it (the
  byte, the bytes, the match), and the spans that \<open>consume\<close> has returned.  A session stops at
  the first call that fails and reports the failure with the state before it; it does not
  return when a \<open>repeatSequence\<close> does not.
\<close>

definition wfOutput :: "'c ByteOutput \<Rightarrow> bool" where
  "wfOutput out \<longleftrightarrow>
     0 \<le> consumed out \<and> consumed out \<le> used out \<and> used out \<le> int (length (outBuffer out))"

fun lzExtend :: "byte list \<Rightarrow> nat \<Rightarrow> nat \<Rightarrow> byte list" where
  "lzExtend xs distance 0 = xs"
| "lzExtend xs distance (Suc n) = lzExtend (xs @ [xs ! (length xs - distance)]) distance n"

datatype OutputCall =
  AddByte byte | AddBytes "byte list" | RepeatSequence int int | Consume int | Done

record 'c SessionState =
  sessionOutput :: "'c ByteOutput"
  emittedStream :: "byte list"
  returnedSlices :: "byte list list"

definition newSession :: "'c Settings \<Rightarrow> 'c SessionState" where
  "newSession S = \<lparr>sessionOutput = newByteOutput S, emittedStream = [], returnedSlices = []\<rparr>"

fun sessionStep ::
  "'c Settings \<Rightarrow> OutputCall \<Rightarrow> 'c SessionState \<Rightarrow> (error + 'c SessionState) option" where
  "sessionStep S (AddByte b) s =
     (case addByte b (sessionOutput s) of
        Inl e \<Rightarrow> Some (Inl e)
      | Inr out1 \<Rightarrow> Some (Inr (s\<lparr>sessionOutput := out1, emittedStream := emittedStream s @ [b]\<rparr>)))"
| "sessionStep S (AddBytes bs) s =
     (case addBytes bs (sessionOutput s) of
        Inl e \<Rightarrow> Some (Inl e)
      | Inr out1 \<Rightarrow> Some (Inr (s\<lparr>sessionOutput := out1, emittedStream := emittedStream s @ bs\<rparr>)))"
| "sessionStep S (RepeatSequence len distance) s =
     (case repeatSequence len distance (sessionOutput s) of
        None \<Rightarrow> None
      | Some (Inl e) \<Rightarrow> Some (Inl e)
      | Some (Inr out1) \<Rightarrow>
          Some (Inr (s\<lparr>sessionOutput := out1,
                       emittedStream := lzExtend (emittedStream s) (nat distance) (nat len)\<rparr>)))"
| "sessionStep S (Consume bytesToKeep) s =
     (case consume S bytesToKeep (sessionOutput s) of
        Inl e \<Rightarrow> Some (Inl e)
      | Inr (batch, out1) \<Rightarrow>
          Some (Inr (s\<lparr>sessionOutput := out1, returnedSlices := returnedSlices s @ [batch]\<rparr>)))"
| "sessionStep S Done s = Some (Inr (s\<lparr>sessionOutput := outputDone (sessionOutput s)\<rparr>))"

fun session ::
  "'c Settings \<Rightarrow> OutputCall list \<Rightarrow> 'c SessionState \<Rightarrow> ('c SessionState \<times> error option) option" where
  "session S [] s = Some (s, None)"
| "session S (c # cs) s =
     (case sessionStep S c s of
        None \<Rightarrow> None
      | Some (Inl e) \<Rightarrow> Some (s, Some e)
      | Some (Inr s1) \<Rightarrow> session S cs s1)"

definition sameFrame :: "'c ByteOutput \<Rightarrow> 'c ByteOutput \<Rightarrow> bool" where
  "sameFrame out out1 \<longleftrightarrow>
     consumed out1 = consumed out \<and> checksum out1 = checksum out \<and> expectsMore out1 = expectsMore out"

definition sessionInvariant :: "'c Settings \<Rightarrow> 'c SessionState \<Rightarrow> bool" where
  "sessionInvariant S s \<longleftrightarrow>
     wfOutput (sessionOutput s)
     \<and> (\<exists>pre. emittedStream s = pre @ emitted (sessionOutput s)
              \<and> concat (returnedSlices s)
                  = pre @ take (nat (consumed (sessionOutput s))) (emitted (sessionOutput s)))
     \<and> checksum (sessionOutput s) = foldl (checksumFold S) (checksumInit S) (returnedSlices s)"

definition exampleCalls :: "OutputCall list" where
  "exampleCalls =
     [AddBytes [1, 2, 3, 4, 5, 6, 7, 8, 9, 10, 11, 12], Consume 0, AddByte 13, AddByte 14,
      Consume 0, RepeatSequence 5 2, Done, Consume 0]"

definition exampleOutput :: "32 word ByteOutput" where
  "exampleOutput =
     \<lparr>outBuffer = [1, 2, 3, 4, 5, 6, 7, 8] @ replicate 8 0, used = 8, consumed = 3,
      expectsMore = True, checksum = 0\<rparr>"

definition exampleOutputAfter :: "32 word ByteOutput" where
  "exampleOutputAfter =
     (case consume crcSettings 0 exampleOutput of
        Inr (batch, out1) \<Rightarrow> out1
      | Inl e \<Rightarrow> exampleOutput)"

definition exampleSessionEnd :: "32 word SessionState" where
  "exampleSessionEnd =
     (case session crcSettings exampleCalls (newSession crcSettings) of
        Some (s, failure) \<Rightarrow> s
      | None \<Rightarrow> newSession crcSettings)"

section \<open>Properties of the bit reader\<close>

lemma uint_and_le: "uint ((x :: 'a::len word) AND m) \<le> uint m"
  using word_and_le1 [of x m] by (simp add: word_le_def)

lemma upperRemovals_nth:
  assumes "0 \<le> n" and "n \<le> 16"
  shows "uint (upperRemovals ! nat n) = 2 ^ nat n - 1"
proof -
  from assms have "nat n \<in> set [0..<17]" by auto
  moreover have "\<forall>k \<in> set [0..<17]. uint (upperRemovals ! k) = 2 ^ k - 1"
    unfolding upperRemovals_def by code_simp
  ultimately show ?thesis by blast
qed

lemma getBitsForwardOrder_bound:
  assumes "getBitsForwardOrder amount r = Inr (v, r1)"
  shows "0 \<le> amount \<and> amount \<le> 16 \<and> 0 \<le> v \<and> v < 2 ^ nat amount"
proof -
  from assms obtain r0 :: BitReader and removal where
    rm: "arrayAt upperRemovals amount = Inr removal"
    and v: "v = uint ((ucast (data r0) :: 16 word) AND removal)"
    by (auto simp: getBitsForwardOrder_def split: sum.splits)
  from rm have rng: "0 \<le> amount" "amount \<le> 16" and rem: "removal = upperRemovals ! nat amount"
    by (auto simp: arrayAt_def upperRemovals_def split: if_splits)
  have "v \<le> uint removal" unfolding v by (rule uint_and_le)
  also have "\<dots> = 2 ^ nat amount - 1" unfolding rem using rng by (rule upperRemovals_nth)
  finally have "v < 2 ^ nat amount" by simp
  moreover have "0 \<le> v" unfolding v by simp
  ultimately show ?thesis using rng by simp
qed

lemma byte_cases:
  assumes "\<forall>k \<in> set [0..<256]. P (word_of_nat k :: byte)"
  shows "P b"
proof -
  have "unat b < 256" using unsigned_less [of b] by simp
  then have "unat b \<in> set [0..<256]" by simp
  with assms have "P (word_of_nat (unat b))" by blast
  then show ?thesis by simp
qed

lemma three_is_mask: "(3 :: 'a::len word) = mask 2"
  by (simp add: mask_eq_exp_minus_1)

lemma low2_16_8:
  "uint ((ucast (d :: 64 word) :: 16 word) AND 3) = uint ((ucast d :: byte) AND 3)"
proof -
  have "(ucast ((ucast d :: byte) AND 3) :: 16 word) = (ucast d :: 16 word) AND 3"
    unfolding three_is_mask by (rule bit_word_eqI) (auto simp: bit_simps)
  then have "uint ((ucast d :: 16 word) AND 3) = uint (ucast ((ucast d :: byte) AND 3) :: 16 word)"
    by simp
  also have "\<dots> = uint ((ucast d :: byte) AND 3)"
    by (simp add: uint_up_ucast is_up)
  finally show ?thesis .
qed

lemma and3_cases: "(b :: byte) AND 3 = 0 \<or> b AND 3 = 1 \<or> b AND 3 = 2 \<or> b AND 3 = 3"
proof -
  have "uint (b AND 3) \<le> uint (3 :: byte)"
    by (rule uint_and_le)
  then have "uint (b AND 3) \<in> {0, 1, 2, 3}"
    using uint_ge_0 [of "b AND 3"] by (simp, arith)
  then show ?thesis
    by (auto simp: word_uint_eq_iff)
qed

text \<open>The two lowest bits of the register come out of the reversal table exchanged.\<close>

lemma reversed_low2:
  "drop_bit 6 (reversedBytes ! unat (b :: byte)) =
     (if b AND 3 = 1 then 2 else if b AND 3 = 2 then 1 else b AND 3)"
proof (rule byte_cases [where P = "\<lambda>b. drop_bit 6 (reversedBytes ! unat b) =
     (if b AND 3 = 1 then 2 else if b AND 3 = 2 then 1 else b AND 3)"])
  show "\<forall>k\<in>set [0..<256]. drop_bit 6 (reversedBytes ! unat (word_of_nat k :: byte)) =
     (if (word_of_nat k :: byte) AND 3 = 1 then 2 else if (word_of_nat k :: byte) AND 3 = 2 then 1
      else word_of_nat k AND 3)"
    unfolding reversedBytes_def by code_simp
qed

lemma getBits2_forward:
  assumes "getBitsForwardOrder 2 r = Inr (btype, r2)"
  shows "getBits 2 r =
           Inr (\<lparr>groupData = (if btype = 1 then 2 else if btype = 2 then 1 else word_of_int btype),
                 bits = 2\<rparr>, r2)
         \<and> btype \<in> {0..3}"
proof -
  from assms obtain r0 :: BitReader where rf: "refillIfNeeded r = Inr r0"
    and bt: "btype = uint ((ucast (data r0) :: 16 word) AND 3)"
    and r2: "r2 = r0\<lparr>data := drop_bit 2 (data r0), bitsLeft := bitsLeft r0 - 2\<rparr>"
    by (auto simp: getBitsForwardOrder_def arrayAt_def upperRemovals_def
        split: sum.splits if_splits)
  define b where "b = (ucast (data r0) :: byte)"
  have bt2: "btype = uint (b AND 3)"
    unfolding bt b_def by (rule low2_16_8)
  have g: "drop_bit 6 (reversedByte (data r0)) =
      (if b AND 3 = 1 then 2 else if b AND 3 = 2 then 1 else b AND 3)"
    unfolding reversedByte_def b_def [symmetric] by (rule reversed_low2)
  have v: "(ucast (drop_bit 6 (reversedByte (data r0))) :: 64 word) =
      (if btype = 1 then 2 else if btype = 2 then 1 else word_of_int btype)"
    unfolding g bt2 using and3_cases [of b] by auto
  have rng: "btype \<in> {0..3}"
    unfolding bt2 using and3_cases [of b] by auto
  show ?thesis
    using rf v rng by (simp add: getBits_def r2)
qed

section \<open>The block header\<close>

text \<open>
  Claim C4, as amended.  When \<open>parseSome\<close> starts a block it reads one bit into
  \<open>wasLast\<close> and then two bits with the Huffman-order read \<open>getBits\<close>.  Let \<open>btype\<close> be
  the value of the BTYPE field as transmitted, that is the same two bits read as an integer
  in stream order (least significant bit first, as RFC 1951 packs every field that is not a
  Huffman code).  The value that \<open>getBits(2)\<close> stores is \<open>btype\<close> with its two bits
  exchanged: 0 and 3 are stored as they are, 1 is stored as 2 and 2 as 1.  The dispatch
  compares with the exchanged constants, so that BTYPE 0 constructs the stored substate,
  BTYPE 1 the fixed one, BTYPE 2 the dynamic one, and BTYPE 3 fails with "Unknown type of
  block compression", an error of the kind MalformedHeader.
\<close>

theorem C4_block_header_dispatch:
  assumes "getBits 1 bitInput = Inr (lastBit, r1)"
      and "getBitsForwardOrder 2 r1 = Inr (btype, r2)"
  shows "getBits 2 r1 =
           Inr (\<lparr>groupData = (if btype = 1 then 2 else if btype = 2 then 1 else word_of_int btype),
                 bits = 2\<rparr>, r2)
         \<and> btype \<in> {0..3}
         \<and> startBlock bitInput d =
             (if btype = 0
              then (case newLiteralState (destroyBitReader r2) of
                      Inl e \<Rightarrow> Inl e
                    | Inr (st, inp) \<Rightarrow>
                        Inr (d\<lparr>wasLast := (groupData lastBit \<noteq> 0), dInput := inp,
                                decodingState := Literal st\<rparr>))
              else if btype = 1
              then Inr (d\<lparr>wasLast := (groupData lastBit \<noteq> 0),
                          decodingState := Fixed (newFixedCodeState r2)\<rparr>)
              else if btype = 2
              then (case dynamicBlock r2 of
                      Inl e \<Rightarrow> Inl e
                    | Inr st \<Rightarrow>
                        Inr (d\<lparr>wasLast := (groupData lastBit \<noteq> 0),
                                decodingState := Dynamic st\<rparr>))
              else Inl UnknownBlockCompression)
         \<and> kindOf UnknownBlockCompression = MalformedHeader"
proof -
  note g = getBits2_forward [OF assms(2)]
  from g have "btype = 0 \<or> btype = 1 \<or> btype = 2 \<or> btype = 3" by auto
  then show ?thesis
    using assms(1) g by (auto simp: startBlock_def Let_def)
qed

text \<open>The theorem at the header bits 1, 1, 0 (the byte 0x4B of a final fixed block): BTYPE is
  1, the stored value is 2, and the fixed substate is constructed.\<close>

theorem C4_block_header_dispatch_witness:
  "getBits 1 (registerReader 0x4B) = Inr (\<lparr>groupData = 1, bits = 1\<rparr>, registerReaderAfter 1 0x4B)
   \<and> getBitsForwardOrder 2 (registerReaderAfter 1 0x4B) = Inr (1, registerReaderAfter 3 0x4B)
   \<and> getBits 2 (registerReaderAfter 1 0x4B)
       = Inr (\<lparr>groupData = 2, bits = 2\<rparr>, registerReaderAfter 3 0x4B)
   \<and> startBlock (registerReader 0x4B) (newDeflateReader (newByteInput 0 (VectorSpan [])) (newByteOutput smallSettings))
       = Inr ((newDeflateReader (newByteInput 0 (VectorSpan [])) (newByteOutput smallSettings))
                \<lparr>wasLast := True, decodingState := Fixed (newFixedCodeState (registerReaderAfter 3 0x4B))\<rparr>)"
proof -
  have h1: "getBits 1 (registerReader 0x4B)
      = Inr (\<lparr>groupData = 1, bits = 1\<rparr>, registerReaderAfter 1 0x4B)"
    by code_simp
  have h2: "getBitsForwardOrder 2 (registerReaderAfter 1 0x4B)
      = Inr (1, registerReaderAfter 3 0x4B)"
    by code_simp
  note c = C4_block_header_dispatch [OF h1 h2,
      of "newDeflateReader (newByteInput 0 (VectorSpan [])) (newByteOutput smallSettings)"]
  from c have c1: "getBits 2 (registerReaderAfter 1 0x4B)
      = Inr (\<lparr>groupData = 2, bits = 2\<rparr>, registerReaderAfter 3 0x4B)"
    by simp
  from c have c2: "startBlock (registerReader 0x4B)
        (newDeflateReader (newByteInput 0 (VectorSpan [])) (newByteOutput smallSettings))
       = Inr ((newDeflateReader (newByteInput 0 (VectorSpan [])) (newByteOutput smallSettings))
                \<lparr>wasLast := True, decodingState := Fixed (newFixedCodeState (registerReaderAfter 3 0x4B))\<rparr>)"
    by simp
  show ?thesis using h1 h2 c1 c2 by blast
qed

text \<open>The claim as written fails there: the stored two bits are 2, the field value is 1.\<close>

theorem C4_stored_value_counterexample:
  "map_sum id (groupData \<circ> fst) (getBits 2 (registerReaderAfter 1 0x4B)) = Inr 2
   \<and> map_sum id fst (getBitsForwardOrder 2 (registerReaderAfter 1 0x4B)) = Inr 1"
  by code_simp

section \<open>The header of a dynamic block\<close>

text \<open>
  Claim C5, as amended.  With HLIT, HDIST and HCLEN the three fields as transmitted (5, 5 and
  4 bits in stream order), the range checks of a dynamic block pass exactly when HLIT is in
  [0,29] and HDIST is in [0,30]; HCLEN is any 4-bit value, in [0,15].  HLIT above 29 fails
  with "Impossible number of extra codes" and HDIST = 31 with "Impossible number of distance
  codes", both of the kind MalformedHeader; when the checks pass the counts are HLIT (to which
  257 is added later), HDIST + 1 and HCLEN + 4.
\<close>

theorem C5_dynamic_header_ranges:
  assumes "getBitsForwardOrder 5 r = Inr (hlit, r1)"
      and "getBitsForwardOrder 5 r1 = Inr (hdist, r2)"
      and "getBitsForwardOrder 4 r2 = Inr (hclen, r3)"
  shows "readDynamicCounts r =
           (if hlit \<le> 29 \<and> hdist \<le> 30 then Inr ((hlit, hdist + 1, hclen + 4), r3)
            else if hlit > 29 then Inl ImpossibleExtraCodes else Inl ImpossibleDistanceCodes)
         \<and> ((\<exists>e. readDynamicCounts r = Inl e \<and> kindOf e = MalformedHeader)
              \<longleftrightarrow> \<not> (hlit \<in> {0..29} \<and> hdist \<in> {0..30} \<and> hclen \<in> {0..15}))
         \<and> hlit \<in> {0..31} \<and> hdist \<in> {0..31} \<and> hclen \<in> {0..15}"
proof -
  from getBitsForwardOrder_bound [OF assms(1)] have a: "0 \<le> hlit" "hlit \<le> 31" by auto
  from getBitsForwardOrder_bound [OF assms(2)] have b: "0 \<le> hdist" "hdist \<le> 31" by auto
  from getBitsForwardOrder_bound [OF assms(3)] have c: "0 \<le> hclen" "hclen \<le> 15" by auto
  show ?thesis
    using assms a b c by (auto simp: readDynamicCounts_def Let_def)
qed

text \<open>The theorem at HLIT = 29, HDIST = 30, HCLEN = 15 (the bits 10111 01111 1111, the
  register 0x3FDD): the checks pass with the counts 29, 31 and 19.\<close>

theorem C5_dynamic_header_ranges_witness:
  "getBitsForwardOrder 5 (registerReader 0x3FDD) = Inr (29, registerReaderAfter 5 0x3FDD)
   \<and> getBitsForwardOrder 5 (registerReaderAfter 5 0x3FDD) = Inr (30, registerReaderAfter 10 0x3FDD)
   \<and> getBitsForwardOrder 4 (registerReaderAfter 10 0x3FDD) = Inr (15, registerReaderAfter 14 0x3FDD)
   \<and> readDynamicCounts (registerReader 0x3FDD) = Inr ((29, 31, 19), registerReaderAfter 14 0x3FDD)"
proof -
  have h1: "getBitsForwardOrder 5 (registerReader 0x3FDD) = Inr (29, registerReaderAfter 5 0x3FDD)"
    by code_simp
  have h2: "getBitsForwardOrder 5 (registerReaderAfter 5 0x3FDD)
      = Inr (30, registerReaderAfter 10 0x3FDD)"
    by code_simp
  have h3: "getBitsForwardOrder 4 (registerReaderAfter 10 0x3FDD)
      = Inr (15, registerReaderAfter 14 0x3FDD)"
    by code_simp
  from C5_dynamic_header_ranges [OF h1 h2 h3]
  have c: "readDynamicCounts (registerReader 0x3FDD)
      = Inr ((29, 31, 19), registerReaderAfter 14 0x3FDD)"
    by simp
  show ?thesis using h1 h2 h3 c by blast
qed

text \<open>The claim as written fails at HLIT = 0, HDIST = 31, HCLEN = 0 (the register 0x3E0):
  HDIST is inside [0,31] and the header is refused.\<close>

theorem C5_hdist_31_counterexample:
  "map_sum id fst (getBitsForwardOrder 5 (registerReader 0x3E0)) = Inr 0
   \<and> map_sum id fst (getBitsForwardOrder 5 (registerReaderAfter 5 0x3E0)) = Inr 31
   \<and> map_sum id fst (getBitsForwardOrder 4 (registerReaderAfter 10 0x3E0)) = Inr 0
   \<and> map_sum id snd (getBitsForwardOrder 5 (registerReader 0x3E0)) = Inr (registerReaderAfter 5 0x3E0)
   \<and> map_sum id snd (getBitsForwardOrder 5 (registerReaderAfter 5 0x3E0))
       = Inr (registerReaderAfter 10 0x3E0)
   \<and> readDynamicCounts (registerReader 0x3E0) = Inl ImpossibleDistanceCodes
   \<and> kindOf ImpossibleDistanceCodes = MalformedHeader"
  by code_simp

section \<open>The code-length sequence of a dynamic block\<close>

text \<open>The failures of the input and of the arrays: none of them is a throw of the decoder
  proper.\<close>

definition inputError :: "error \<Rightarrow> bool" where
  "inputError e \<longleftrightarrow> e = TruncatedInput \<or> e = UndefinedBehaviour"

lemma spanAt_error: "spanAt xs a n = Inl e \<Longrightarrow> e = UndefinedBehaviour"
  by (auto simp: spanAt_def split: if_splits)
lemma writeAt_error: "writeAt xs a ys = Inl e \<Longrightarrow> e = UndefinedBehaviour"
  by (auto simp: writeAt_def split: if_splits)
lemma arrayAt_error: "arrayAt xs i = Inl e \<Longrightarrow> e = UndefinedBehaviour"
  by (auto simp: arrayAt_def split: if_splits)
lemma arrayUpdate_error: "arrayUpdate xs i f = Inl e \<Longrightarrow> e = UndefinedBehaviour"
  by (auto simp: arrayUpdate_def split: if_splits)
lemma callReadMore_error: "callReadMore s n = Inl e \<Longrightarrow> e = TruncatedInput"
  by (cases s) (auto simp: Let_def split: if_splits)

lemma refillSome_error: "refillSome inp = Inl e \<Longrightarrow> inputError e"
  by (auto simp: refillSome_def inputError_def split: if_splits sum.splits prod.splits
      dest: spanAt_error writeAt_error callReadMore_error)

lemma getRange_error: "getRange n inp = Inl e \<Longrightarrow> inputError e"
  by (auto simp: getRange_def Let_def inputError_def split: if_splits sum.splits prod.splits
      dest: spanAt_error refillSome_error)

lemma refillIfNeeded_error: "refillIfNeeded r = Inl e \<Longrightarrow> inputError e"
  by (auto simp: refillIfNeeded_def inputError_def split: if_splits sum.splits prod.splits
      dest: getRange_error)

lemma getBitsForwardOrder_error: "getBitsForwardOrder n r = Inl e \<Longrightarrow> inputError e"
  by (auto simp: getBitsForwardOrder_def inputError_def split: sum.splits
      dest: refillIfNeeded_error arrayAt_error)

lemma peekCodeLength_error: "peekCodeLength lk ls r = Inl e \<Longrightarrow> inputError e"
  by (auto simp: peekCodeLength_def peekAByteAndConsumeSome_def inputError_def
      split: sum.splits if_splits prod.splits dest: refillIfNeeded_error arrayAt_error)

lemma forEach_error:
  assumes "\<And>x s e. body x s = Inl e \<Longrightarrow> P e"
  shows "forEach xs body s = Inl e \<Longrightarrow> P e"
  by (induction xs arbitrary: s) (auto split: sum.splits dest: assms)

lemma fillLengths_error: "fillLengths cs i n v = Inl e \<Longrightarrow> e = UndefinedBehaviour"
  unfolding fillLengths_def
  by (erule forEach_error [rotated]) (auto dest: arrayUpdate_error)

lemma inputError_kind: "inputError e \<Longrightarrow> kindOf e \<noteq> MalformedHeader"
  by (auto simp: inputError_def)

text \<open>A failure of the kind MalformedHeader in the loop that reads the code lengths can only
  be the one of a repeat symbol 16 at position 0.\<close>

lemma readCodeLengths_malformed:
  "0 \<le> i \<Longrightarrow> readCodeLengths realSize lk ls i cs q r = Inl e \<Longrightarrow> kindOf e = MalformedHeader
   \<Longrightarrow> i = 0 \<and> e = InvalidLookbackPosition \<and> (\<exists>r1. peekCodeLength lk ls r = Inr (16, r1))"
proof (induction realSize lk ls i cs q r rule: readCodeLengths.induct)
  case (1 realSize lk ls i cs q r)
  note IH = "1.IH" and pos = "1.prems"(1) and res = "1.prems"(2) and kind = "1.prems"(3)
  show ?case
  proof (cases "i < realSize")
    case False
    with res show ?thesis by (simp add: readCodeLengths.simps [of realSize lk ls i])
  next
    case lt: True
    show ?thesis
    proof (cases "peekCodeLength lk ls r")
      case (Inl e')
      with res lt have "e = e'" by (simp add: readCodeLengths.simps [of realSize lk ls i])
      with Inl kind show ?thesis using inputError_kind peekCodeLength_error by blast
    next
      case (Inr p)
      obtain len r1 where p: "p = (len, r1)" by (cases p)
      note pk = Inr [unfolded p]
      consider (small) "len < 16" | (rep) "len = 16" | (zero) "len > 16" by linarith
      then show ?thesis
      proof cases
        case small
        show ?thesis
        proof (cases "arrayUpdate cs i (\<lambda>e. e\<lparr>codeLength := word_of_int len\<rparr>)")
          case (Inl e1)
          with res lt pk small have "e = UndefinedBehaviour"
            by (simp add: readCodeLengths.simps [of realSize lk ls i] arrayUpdate_error)
          with kind show ?thesis by simp
        next
          case cs1: (Inr cs1)
          show ?thesis
          proof (cases "arrayUpdate q len (\<lambda>q. q + 1)")
            case (Inl e1)
            with res lt pk small cs1 have "e = UndefinedBehaviour"
              by (simp add: readCodeLengths.simps [of realSize lk ls i] arrayUpdate_error)
            with kind show ?thesis by simp
          next
            case q1: (Inr q1)
            from res lt pk small cs1 q1
            have rec: "readCodeLengths realSize lk ls (i + 1) cs1 q1 r1 = Inl e"
              by (simp add: readCodeLengths.simps [of realSize lk ls i])
            from IH(1) [OF lt pk refl small cs1 q1 _ rec kind] pos
            show ?thesis by simp
          qed
        qed
      next
        case rep
        show ?thesis
        proof (cases "i = 0")
          case True
          with res lt pk rep have "e = InvalidLookbackPosition"
            by (simp add: readCodeLengths.simps [of realSize lk ls 0])
          with True pk rep show ?thesis by auto
        next
          case nz: False
          show ?thesis
          proof (cases "getBitsForwardOrder 2 r1")
            case (Inl e1)
            with res lt pk rep nz have "e = e1"
              by (simp add: readCodeLengths.simps [of realSize lk ls i])
            with Inl kind show ?thesis using inputError_kind getBitsForwardOrder_error by blast
          next
            case (Inr p2)
            obtain v r2 where p2: "p2 = (v, r2)" by (cases p2)
            note gb = Inr [unfolded p2]
            have v0: "0 \<le> v" using getBitsForwardOrder_nonneg [OF gb] .
            show ?thesis
            proof (cases "arrayAt cs (i - 1)")
              case (Inl e1)
              with res lt pk rep nz gb have "e = UndefinedBehaviour"
                by (simp add: readCodeLengths.simps [of realSize lk ls i] arrayAt_error)
              with kind show ?thesis by simp
            next
              case prev: (Inr previous)
              show ?thesis
              proof (cases "fillLengths cs i (v + 3) (codeLength previous)")
                case (Inl e1)
                with res lt pk rep nz gb prev have "e = UndefinedBehaviour"
                  by (simp add: readCodeLengths.simps [of realSize lk ls i] fillLengths_error)
                with kind show ?thesis by simp
              next
                case cs1: (Inr cs1)
                show ?thesis
                proof (cases "arrayUpdate q (uint (codeLength previous)) (\<lambda>q. q + (v + 3))")
                  case (Inl e1)
                  with res lt pk rep nz gb prev cs1 have "e = UndefinedBehaviour"
                    by (simp add: readCodeLengths.simps [of realSize lk ls i] arrayUpdate_error)
                  with kind show ?thesis by simp
                next
                  case q1: (Inr q1)
                  from res lt pk rep nz gb prev cs1 q1
                  have rec: "readCodeLengths realSize lk ls (i + (v + 3)) cs1 q1 r2 = Inl e"
                    by (simp add: readCodeLengths.simps [of realSize lk ls i])
                  have ns: "\<not> len < 16" using rep by simp
                  from IH(2) [OF lt pk refl ns rep nz gb refl prev cs1 q1 _ rec kind] pos v0
                  show ?thesis by simp
                qed
              qed
            qed
          qed
        qed
      next
        case zero
        define run where "run = (if len = 17
                            then (case getBitsForwardOrder 3 r1 of
                                    Inl e \<Rightarrow> Inl e
                                  | Inr (v, reader2) \<Rightarrow> Inr (v + 3, reader2))
                            else (case getBitsForwardOrder 7 r1 of
                                    Inl e \<Rightarrow> Inl e
                                  | Inr (sevenBitsValue, reader2) \<Rightarrow>
                                      Inr (sevenBitsValue + 11, reader2)))"
        have ns: "\<not> len < 16" and n16: "len \<noteq> 16" using zero by simp_all
        show ?thesis
        proof (cases run)
          case (Inl e1)
          with res lt pk ns n16 have "e = e1"
            by (simp add: readCodeLengths.simps [of realSize lk ls i] run_def)
          moreover from Inl have "inputError e1"
            by (auto simp: run_def split: if_splits sum.splits dest: getBitsForwardOrder_error)
          ultimately show ?thesis using kind inputError_kind by blast
        next
          case (Inr p2)
          obtain zeroCount r2 where p2: "p2 = (zeroCount, r2)" by (cases p2)
          note rn = Inr [unfolded p2]
          have z0: "0 \<le> zeroCount"
            using rn by (auto simp: run_def split: if_splits sum.splits dest: getBitsForwardOrder_nonneg)
          show ?thesis
          proof (cases "fillLengths cs i zeroCount 0")
            case (Inl e1)
            with res lt pk ns n16 rn have "e = UndefinedBehaviour"
              by (simp add: readCodeLengths.simps [of realSize lk ls i] run_def fillLengths_error)
            with kind show ?thesis by simp
          next
            case cs1: (Inr cs1)
            from res lt pk ns n16 rn cs1
            have rec: "readCodeLengths realSize lk ls (i + zeroCount) cs1 q r2 = Inl e"
              by (simp add: readCodeLengths.simps [of realSize lk ls i] run_def)
            have z3: "3 \<le> zeroCount"
              using rn by (auto simp: run_def split: if_splits sum.splits dest: getBitsForwardOrder_nonneg)
            from IH(3) [OF lt pk refl ns n16 rn [unfolded run_def] refl cs1 _ rec kind] pos z3
            show ?thesis by simp
          qed
        qed
      qed
    qed
  qed
qed

lemma arrayUpdate_ok:
  "0 \<le> i \<Longrightarrow> i < int (length xs) \<Longrightarrow> arrayUpdate xs i f = Inr (xs[nat i := f (xs ! nat i)])"
  by (simp add: arrayUpdate_def)

lemma forEach_update_ok:
  "0 \<le> i \<Longrightarrow> j < int (length cs) \<Longrightarrow>
     \<exists>cs1. forEach [i..j] (\<lambda>k c. arrayUpdate c k f) cs = Inr cs1 \<and> length cs1 = length cs"
proof (induction i j arbitrary: cs rule: upto.induct)
  case (1 i j)
  show ?case
  proof (cases "i \<le> j")
    case False
    then show ?thesis by simp
  next
    case True
    then have e: "[i..j] = i # [i + 1..j]" by (simp add: upto_rec1)
    from True 1 have u: "arrayUpdate cs i f = Inr (cs[nat i := f (cs ! nat i)])"
      by (intro arrayUpdate_ok) auto
    from "1.IH" [OF True, of "cs[nat i := f (cs ! nat i)]"] "1.prems"
    obtain cs1 where "forEach [i + 1..j] (\<lambda>k c. arrayUpdate c k f) (cs[nat i := f (cs ! nat i)]) = Inr cs1"
      and "length cs1 = length cs" by auto
    then show ?thesis by (simp add: e u)
  qed
qed

lemma fillLengths_ok:
  "0 \<le> i \<Longrightarrow> i + n \<le> int (length cs) \<Longrightarrow> \<exists>cs1. fillLengths cs i n v = Inr cs1"
  unfolding fillLengths_def
  using forEach_update_ok [of i "i + n - 1" cs "\<lambda>e. e\<lparr>codeLength := v\<rparr>"] by auto


text \<open>Meta-codes for the examples: the only code is the one-bit code 0, of the symbol 18
  (respectively 16); the lookup tables are those \<open>generateCodeCoding\<close> builds for them.\<close>

definition metaLookup18 :: "byte list" where
  "metaLookup18 = replicate 128 18 @ replicate 128 0"

definition metaLengths18 :: "byte list" where
  "metaLengths18 = replicate 18 0 @ [1]"

definition metaLookup16 :: "byte list" where
  "metaLookup16 = replicate 128 16 @ replicate 128 0"

definition metaLengths16 :: "byte list" where
  "metaLengths16 = replicate 16 0 @ [1, 0, 0]"

lemma metaLookup_generated:
  "generateCodeCoding metaLengths18 = Inr metaLookup18"
  "generateCodeCoding metaLengths16 = Inr metaLookup16"
  by code_simp+

text \<open>The first table of a dynamic block is the one of the literal/length codes, and its first
  symbol is the first of the code-length sequence: a symbol 16 there has no previous length to
  repeat, and the construction of the state fails.\<close>

lemma newDynamicCodeState_first_16:
  assumes "0 < codeCount" and "peekCodeLength lk ls r = Inr (16, r1)"
  shows "newDynamicCodeState r codeCount distanceCodeCount lk ls = Inl InvalidLookbackPosition"
proof -
  have "readCodeLengths codeCount lk ls 0 (replicate (nat 288) \<lparr>code = 0, codeLength = 0\<rparr>)
          (replicate 17 0) r = Inl InvalidLookbackPosition"
    using assms by (simp add: readCodeLengths.simps [of codeCount lk ls 0])
  then have "newEncodedTable 288 r codeCount lk ls = Inl InvalidLookbackPosition"
    by (simp add: newEncodedTable_def)
  then show ?thesis by (simp add: newDynamicCodeState_def)
qed

text \<open>What the loop does with a run that passes the declared size and stays inside the array:
  the run is stored and the loop ends (the loop compares nothing with the declared size but the
  position at which it goes on).\<close>

lemma readCodeLengths_run_past_size:
  "(0 \<le> i \<and> i < realSize \<and> peekCodeLength lk ls r = Inr (18, r1)
        \<and> getBitsForwardOrder 7 r1 = Inr (v, r2)
        \<and> realSize < i + (v + 11) \<and> i + (v + 11) \<le> int (length cs)
      \<longrightarrow> (\<exists>cs1. fillLengths cs i (v + 11) 0 = Inr cs1
                 \<and> readCodeLengths realSize lk ls i cs q r = Inr (cs1, q, r2)))
   \<and> (0 \<le> i \<and> i < realSize \<and> peekCodeLength lk ls r = Inr (17, r1)
        \<and> getBitsForwardOrder 3 r1 = Inr (v, r2)
        \<and> realSize < i + (v + 3) \<and> i + (v + 3) \<le> int (length cs)
      \<longrightarrow> (\<exists>cs1. fillLengths cs i (v + 3) 0 = Inr cs1
                 \<and> readCodeLengths realSize lk ls i cs q r = Inr (cs1, q, r2)))
   \<and> (0 < i \<and> i < realSize \<and> peekCodeLength lk ls r = Inr (16, r1)
        \<and> getBitsForwardOrder 2 r1 = Inr (v, r2)
        \<and> realSize < i + (v + 3) \<and> i + (v + 3) \<le> int (length cs)
        \<and> uint (codeLength (cs ! nat (i - 1))) < int (length q)
      \<longrightarrow> (\<exists>cs1 q1. fillLengths cs i (v + 3) (codeLength (cs ! nat (i - 1))) = Inr cs1
                 \<and> readCodeLengths realSize lk ls i cs q r = Inr (cs1, q1, r2)))"
proof (intro conjI impI)
  assume a: "0 \<le> i \<and> i < realSize \<and> peekCodeLength lk ls r = Inr (18, r1)
        \<and> getBitsForwardOrder 7 r1 = Inr (v, r2)
        \<and> realSize < i + (v + 11) \<and> i + (v + 11) \<le> int (length cs)"
  then obtain cs1 where f: "fillLengths cs i (v + 11) 0 = Inr cs1"
    using fillLengths_ok [of i "v + 11" cs 0] by blast
  with a have "readCodeLengths realSize lk ls i cs q r = Inr (cs1, q, r2)"
    by (simp add: readCodeLengths.simps [of realSize lk ls i]
        readCodeLengths.simps [of realSize lk ls "i + (v + 11)"])
  with f show "\<exists>cs1. fillLengths cs i (v + 11) 0 = Inr cs1
      \<and> readCodeLengths realSize lk ls i cs q r = Inr (cs1, q, r2)" by blast
next
  assume a: "0 \<le> i \<and> i < realSize \<and> peekCodeLength lk ls r = Inr (17, r1)
        \<and> getBitsForwardOrder 3 r1 = Inr (v, r2)
        \<and> realSize < i + (v + 3) \<and> i + (v + 3) \<le> int (length cs)"
  then obtain cs1 where f: "fillLengths cs i (v + 3) 0 = Inr cs1"
    using fillLengths_ok [of i "v + 3" cs 0] by blast
  with a have "readCodeLengths realSize lk ls i cs q r = Inr (cs1, q, r2)"
    by (simp add: readCodeLengths.simps [of realSize lk ls i]
        readCodeLengths.simps [of realSize lk ls "i + (v + 3)"])
  with f show "\<exists>cs1. fillLengths cs i (v + 3) 0 = Inr cs1
      \<and> readCodeLengths realSize lk ls i cs q r = Inr (cs1, q, r2)" by blast
next
  assume a: "0 < i \<and> i < realSize \<and> peekCodeLength lk ls r = Inr (16, r1)
        \<and> getBitsForwardOrder 2 r1 = Inr (v, r2)
        \<and> realSize < i + (v + 3) \<and> i + (v + 3) \<le> int (length cs)
        \<and> uint (codeLength (cs ! nat (i - 1))) < int (length q)"
  then have v0: "0 \<le> v" using getBitsForwardOrder_nonneg by blast
  from a obtain cs1 where f: "fillLengths cs i (v + 3) (codeLength (cs ! nat (i - 1))) = Inr cs1"
    using fillLengths_ok [of i "v + 3" cs "codeLength (cs ! nat (i - 1))"] by auto
  from a v0 have p: "arrayAt cs (i - 1) = Inr (cs ! nat (i - 1))"
    by (simp add: arrayAt_def)
  from a have u: "arrayUpdate q (uint (codeLength (cs ! nat (i - 1)))) (\<lambda>q. q + (v + 3))
      = Inr (q[nat (uint (codeLength (cs ! nat (i - 1)))) :=
               q ! nat (uint (codeLength (cs ! nat (i - 1)))) + (v + 3)])"
    by (intro arrayUpdate_ok) auto
  from a f p u have "readCodeLengths realSize lk ls i cs q r
      = Inr (cs1, q[nat (uint (codeLength (cs ! nat (i - 1)))) :=
               q ! nat (uint (codeLength (cs ! nat (i - 1)))) + (v + 3)], r2)"
    by (simp add: readCodeLengths.simps [of realSize lk ls i]
        readCodeLengths.simps [of realSize lk ls "i + (v + 3)"])
  with f show "\<exists>cs1 q1. fillLengths cs i (v + 3) (codeLength (cs ! nat (i - 1))) = Inr cs1
      \<and> readCodeLengths realSize lk ls i cs q r = Inr (cs1, q1, r2)" by blast
qed

text \<open>
  Claim C2, as amended.  The code-length sequence of a dynamic block begins with the lengths of
  the literal/length table.  A repeat symbol 16 at position 0 of the sequence makes the
  construction of the block's state fail with "Invalid lookback position", an error of the kind
  MalformedHeader.  The loop that reads the code lengths does not compare a run (symbol 16, 17
  or 18) with the declared number of entries: whenever it fails with an error of the kind
  MalformedHeader, it stands at its position 0 on a symbol 16, so a run that over-runs never
  raises an error of that kind.
\<close>

theorem C2_code_length_runs:
  "(0 < codeCount \<and> peekCodeLength lk ls r = Inr (16, r1)
      \<longrightarrow> newDynamicCodeState r codeCount distanceCodeCount lk ls = Inl InvalidLookbackPosition)
   \<and> kindOf InvalidLookbackPosition = MalformedHeader
   \<and> (0 \<le> i \<and> readCodeLengths realSize lk ls i cs q r = Inl e \<and> kindOf e = MalformedHeader
      \<longrightarrow> i = 0 \<and> e = InvalidLookbackPosition \<and> (\<exists>r1. peekCodeLength lk ls r = Inr (16, r1)))"
proof (intro conjI impI)
  assume "0 < codeCount \<and> peekCodeLength lk ls r = Inr (16, r1)"
  then show "newDynamicCodeState r codeCount distanceCodeCount lk ls = Inl InvalidLookbackPosition"
    using newDynamicCodeState_first_16 by blast
next
  show "kindOf InvalidLookbackPosition = MalformedHeader" by simp
next
  assume a: "0 \<le> i \<and> readCodeLengths realSize lk ls i cs q r = Inl e \<and> kindOf e = MalformedHeader"
  then have "i = 0 \<and> e = InvalidLookbackPosition \<and> (\<exists>r1. peekCodeLength lk ls r = Inr (16, r1))"
    using readCodeLengths_malformed [of i realSize lk ls cs q r e] by blast
  then show "i = 0" and "e = InvalidLookbackPosition"
    and "\<exists>r1. peekCodeLength lk ls r = Inr (16, r1)" by blast+
qed

text \<open>The theorem at a block with HLIT = 0 and HDIST = 0 whose code-length sequence begins with
  the symbol 16.\<close>

theorem C2_code_length_runs_witness:
  "peekCodeLength metaLookup16 metaLengths16 (registerReader 0) = Inr (16, registerReaderAfter 1 0)
   \<and> newDynamicCodeState (registerReader 0) 257 1 metaLookup16 metaLengths16
        = Inl InvalidLookbackPosition
   \<and> readCodeLengths 257 metaLookup16 metaLengths16 0 (replicate 288 \<lparr>code = 0, codeLength = 0\<rparr>)
        (replicate 17 0) (registerReader 0) = Inl InvalidLookbackPosition
   \<and> (\<exists>r1. peekCodeLength metaLookup16 metaLengths16 (registerReader 0) = Inr (16, r1))"
proof -
  have h1: "peekCodeLength metaLookup16 metaLengths16 (registerReader 0)
      = Inr (16, registerReaderAfter 1 0)"
    by code_simp
  have c1: "newDynamicCodeState (registerReader 0) 257 1 metaLookup16 metaLengths16
        = Inl InvalidLookbackPosition"
    using C2_code_length_runs [where codeCount = 257 and lk = metaLookup16 and ls = metaLengths16
        and r = "registerReader 0" and ?r1.0 = "registerReaderAfter 1 0" and distanceCodeCount = 1,
        THEN conjunct1] h1
    by simp
  have h2: "readCodeLengths 257 metaLookup16 metaLengths16 0
        (replicate 288 \<lparr>code = 0, codeLength = 0\<rparr>) (replicate 17 0) (registerReader 0)
      = Inl InvalidLookbackPosition"
    by code_simp
  have c2: "\<exists>r1. peekCodeLength metaLookup16 metaLengths16 (registerReader 0) = Inr (16, r1)"
    using C2_code_length_runs [where i = 0 and realSize = 257 and lk = metaLookup16
        and ls = metaLengths16 and r = "registerReader 0" and e = InvalidLookbackPosition
        and cs = "replicate 288 \<lparr>code = 0, codeLength = 0\<rparr>" and q = "replicate 17 0",
        THEN conjunct2, THEN conjunct2] h2
    by simp
  show ?thesis using h1 c1 h2 c2 by blast
qed

text \<open>The claim as written fails for two symbols 18 with runs of 138 in a table of declared
  size 257 (HLIT = 0; with HDIST = 0 the declared total is 258): the second run ends at 276,
  no error is raised, and the loop ends.\<close>

theorem C2_overrun_counterexample:
  "readCodeLengths 257 metaLookup18 metaLengths18 0 (replicate 288 \<lparr>code = 0, codeLength = 0\<rparr>)
      (replicate 17 0) (registerReader 0xFEFE)
   = Inr (replicate 288 \<lparr>code = 0, codeLength = 0\<rparr>, replicate 17 0, registerReaderAfter 16 0xFEFE)"
  by code_simp


section \<open>The length codes of a fixed block\<close>

text \<open>
  The seven bits 1100000 to 1100011 open the 8-bit codes 11000000 to 11000111 of the length
  symbols 280 to 287.  The comparison \<open>part <= 0010111\<close> that should send them to the branch
  reading the eighth bit compares with 4169, so it holds for every 7-bit value: the seven bits
  are taken as a complete code, the size is \<open>part + 2\<close> (98 to 101), and
  \<open>parseLongerSize\<close> asks \<open>getBitsForwardOrder\<close> for 22 or 23 bits, beyond the 17 entries of
  \<open>upperRemovals\<close>.  No reader gets a length out of these codes.
\<close>

lemma getBitsForwardOrder_too_many:
  assumes "16 < amount"
  shows "\<exists>e. getBitsForwardOrder amount r = Inl e"
proof (cases "refillIfNeeded r")
  case (Inl e)
  then show ?thesis by (simp add: getBitsForwardOrder_def)
next
  case (Inr r1)
  moreover from assms have "arrayAt upperRemovals amount = Inl UndefinedBehaviour"
    by (simp add: arrayAt_def upperRemovals_def)
  ultimately show ?thesis by (simp add: getBitsForwardOrder_def)
qed

lemma parseLongerSize_too_long:
  assumes "75 \<le> partOfSize"
  shows "\<exists>e. parseLongerSize partOfSize r = Inl e"
proof -
  from assms have n: "16 < drop_bit 2 (partOfSize - 7)"
    by (simp add: drop_bit_eq_div)
  from getBitsForwardOrder_too_many [OF n, of r]
  obtain e where "getBitsForwardOrder (drop_bit 2 (partOfSize - 7)) r = Inl e" by blast
  with assms show ?thesis by (simp add: parseLongerSize_def Let_def)
qed

lemma fixedLength_codes_280_287:
  assumes "groupData part \<in> {0b1100000, 0b1100001, 0b1100010, 0b1100011}"
  shows "fixedLength part r = parseLongerSize (uint (groupData part) + 2) r
         \<and> (\<exists>e. fixedLength part r = Inl e)"
proof -
  from assms have v: "toInt (groupData part + 2) = uint (groupData part) + 2"
    and le: "groupData part \<le> 4169" and big: "75 \<le> uint (groupData part) + 2"
    by (auto simp: toInt_def)
  from le v big have eq: "fixedLength part r = parseLongerSize (uint (groupData part) + 2) r"
    by (simp add: fixedLength_def)
  with parseLongerSize_too_long [OF big, of r] show ?thesis by simp
qed
text \<open>
  Claim C1: the code differs from the claim.  The stream 4B 4C 1C 00 00 00 is a final fixed
  block: the literal \<open>a\<close> twice (code 10010001), the length symbol 280 (code 11000000, four
  extra bits 0000: length 115), the distance code 00000 (distance 1) and the end of the block;
  it stands for 117 bytes \<open>a\<close>.  The decoder leaves the language at the length symbol.
\<close>

theorem C1_fixed_length_symbol_280:
  "readDeflateIntoVector smallSettings [0x4b, 0x4c, 0x1c, 0, 0, 0] = Some (Inl UndefinedBehaviour)"
  by code_simp

section \<open>Lengths and distances of matches\<close>

text \<open>
  The tables of RFC 1951, section 3.2.5, as the specification gives them: the smallest length of
  each length symbol 257 to 285, and the smallest distance of each distance symbol 0 to 29 (the
  list of the specification's data model).
\<close>

definition rfcLengthBases :: "int list" where
  "rfcLengthBases = [3, 4, 5, 6, 7, 8, 9, 10, 11, 13, 15, 17, 19, 23, 27, 31, 35, 43, 51, 59,
     67, 83, 99, 115, 131, 163, 195, 227, 258]"

definition rfcLengthBase :: "int \<Rightarrow> int" where
  "rfcLengthBase symbol = rfcLengthBases ! nat (symbol - 257)"

definition specDistanceBases :: "int list" where
  "specDistanceBases = [1,2,3,4,5,7,9,13,17,25,33,49,65,97,129,193,257,385,513,769,1025,1537,
     2049,3073,4097,6145,8193,12289,16385,24577]"

definition specDistanceBase :: "int \<Rightarrow> int" where
  "specDistanceBase symbol = specDistanceBases ! nat symbol"

text \<open>Tables with one code of one bit for one symbol, and dynamic states over them: every
  word read from \<open>constantTable n s\<close> is \<open>s\<close>.\<close>

definition constantTable :: "nat \<Rightarrow> int \<Rightarrow> EncodedTable" where
  "constantTable MaxSize symbol =
     \<lparr>codes = replicate MaxSize \<lparr>code = 0, codeLength = 1\<rparr>, remainders = [],
      codesIndex = replicate 256 symbol\<rparr>"

definition exampleDynamicState :: "64 word \<Rightarrow> DynamicCodeState" where
  "exampleDynamicState d =
     \<lparr>copyDistance = 0, copyLength = 0, dynamicInput = registerReader d,
      codesTable = constantTable 288 256, distanceCode = constantTable 31 5\<rparr>"

definition exampleCopyState :: "64 word \<Rightarrow> DynamicCodeState" where
  "exampleCopyState d =
     \<lparr>copyDistance = 0, copyLength = 0, dynamicInput = registerReader d,
      codesTable = constantTable 288 260, distanceCode = constantTable 31 2\<rparr>"

text \<open>A pending copy has a distance of at least 1.\<close>

definition copyDistanceOk :: "'a CopyState_scheme \<Rightarrow> bool" where
  "copyDistanceOk st \<longleftrightarrow> (copyLength st > 0 \<longrightarrow> 1 \<le> copyDistance st)"

lemma or_low:
  fixes x c :: int
  assumes "0 \<le> x" and "x < 2 ^ n"
  shows "push_bit n c OR x = push_bit n c + x"
proof -
  from assms have x: "take_bit n x = x" by (rule take_bit_int_eq_self)
  have "push_bit n c + take_bit n x = push_bit n c OR take_bit n x"
    by (rule disjunctive_add) (auto simp: bit_simps)
  then show ?thesis by (simp add: x)
qed

lemma parseLongerSize_formula:
  assumes "p \<noteq> 31" and "getBitsForwardOrder (drop_bit 2 (p - 7)) r = Inr (x, r1)"
  shows "parseLongerSize p r =
           Inr (push_bit (nat (drop_bit 2 (p - 7))) ((p + 1) AND 3) + x
                  + (push_bit (nat (drop_bit 2 (p + 1))) 1 + 3), r1)"
proof -
  from getBitsForwardOrder_bound [OF assms(2)]
  have "0 \<le> x" and "x < 2 ^ nat (drop_bit 2 (p - 7))" by simp_all
  then have "push_bit (nat (drop_bit 2 (p - 7))) ((p + 1) AND 3) OR x
      = push_bit (nat (drop_bit 2 (p - 7))) ((p + 1) AND 3) + x"
    by (rule or_low)
  with assms show ?thesis by (simp add: parseLongerSize_def Let_def)
qed

lemma length_table:
  assumes "11 \<le> p" and "p \<le> 30"
  shows "push_bit (nat (drop_bit 2 (p - 7))) ((p + 1) AND 3)
           + (push_bit (nat (drop_bit 2 (p + 1))) 1 + 3) = rfcLengthBase (p + 254)"
proof -
  from assms have "p \<in> set [11..30]" by (simp only: set_upto atLeastAtMost_iff)
  moreover have "\<forall>p \<in> set [11..30]. push_bit (nat (drop_bit 2 (p - 7))) ((p + 1) AND 3)
           + (push_bit (nat (drop_bit 2 (p + 1))) 1 + 3) = rfcLengthBase (p + 254)"
    unfolding rfcLengthBase_def rfcLengthBases_def by code_simp
  ultimately show ?thesis by blast
qed

lemma parseLongerSize_rfc:
  assumes "11 \<le> p" and "p \<le> 30"
  shows "parseLongerSize p r =
           (case getBitsForwardOrder (drop_bit 2 (p - 7)) r of
              Inl e \<Rightarrow> Inl e
            | Inr (x, r1) \<Rightarrow> Inr (rfcLengthBase (p + 254) + x, r1))"
proof (cases "getBitsForwardOrder (drop_bit 2 (p - 7)) r")
  case (Inl e)
  with assms show ?thesis by (simp add: parseLongerSize_def Let_def)
next
  case (Inr a)
  obtain x r1 where a: "a = (x, r1)" by (cases a)
  from assms have ne: "p \<noteq> 31" by simp
  from parseLongerSize_formula [OF ne Inr [unfolded a]] length_table [OF assms]
  show ?thesis by (simp add: Inr a)
qed

lemma distance_tables_agree: "distanceOffsets = specDistanceBases"
  by (simp add: distanceOffsets_def specDistanceBases_def)

lemma parseLongerDistance_spec:
  assumes "4 \<le> ds" and "ds \<le> 29"
  shows "parseLongerDistance (ds + 1) r =
           (case getBitsForwardOrder (drop_bit 1 (ds - 2)) r of
              Inl e \<Rightarrow> Inl e
            | Inr (x, r1) \<Rightarrow> Inr (specDistanceBase ds + x, r1))"
proof -
  from assms have "arrayAt distanceOffsets (ds + 1 - 1) = Inr (specDistanceBase ds)"
    by (simp add: arrayAt_def specDistanceBase_def distance_tables_agree [symmetric]
        distanceOffsets_def)
  moreover have "ds + 1 - 3 = ds - 2" by simp
  ultimately show ?thesis
    by (simp add: parseLongerDistance_def Let_def split: sum.splits)
qed

lemma toInt_small:
  assumes "uint w < 2 ^ 31"
  shows "toInt w = uint w"
proof -
  have "uint (ucast w :: 32 word) = take_bit 32 (uint w)"
    by (simp add: unsigned_ucast_eq)
  also have "\<dots> = uint w"
    using assms by (intro take_bit_int_eq_self) auto
  finally have u: "uint (ucast w :: 32 word) = uint w" .
  have "sint (ucast w :: 32 word) = signed_take_bit 31 (uint (ucast w :: 32 word))"
    by (simp add: sint_uint)
  also have "\<dots> = uint w"
  proof -
    have "- (2 ^ 31) \<le> (0 :: int)" by simp
    also have "0 \<le> uint w" by simp
    finally have "- (2 ^ 31) \<le> uint w" .
    with assms show ?thesis
      unfolding u by (intro signed_take_bit_int_eq_self) simp_all
  qed
  finally show ?thesis by (simp add: toInt_def)
qed

lemma byte_to_64: "uint (ucast (b :: byte) :: 64 word) = uint b"
  by (simp add: uint_up_ucast is_up)

lemma getBits_bound:
  assumes "getBits amount r = Inr (g, r1)"
  shows "uint (groupData g) < 256"
proof -
  from assms obtain b :: byte where "groupData g = ucast b"
    by (auto simp: getBits_def split: sum.splits if_splits)
  then have "uint (groupData g) = uint b" by (simp add: byte_to_64)
  also have "\<dots> < 256" using uint_lt2p [of b] by simp
  finally show ?thesis .
qed

lemma succ_small:
  assumes "uint (w :: 64 word) < 256"
  shows "toInt (w + 1) = uint w + 1"
proof -
  have "uint (w + 1) = (uint w + 1) mod 2 ^ 64"
    by (simp add: uint_word_ariths)
  also have "\<dots> = uint w + 1" using assms by simp
  finally have u: "uint (w + 1) = uint w + 1" .
  with assms have "uint (w + 1) < 2 ^ 31" by simp
  from toInt_small [OF this] u show ?thesis by simp
qed

lemma distanceOffsets_positive:
  assumes "arrayAt distanceOffsets i = Inr offset"
  shows "1 \<le> offset"
proof -
  from assms have "offset \<in> set distanceOffsets"
    by (auto simp: arrayAt_def split: if_splits)
  moreover have "\<forall>x \<in> set distanceOffsets. 1 \<le> x"
    unfolding distanceOffsets_def by simp
  ultimately show ?thesis by blast
qed

lemma parseLongerDistance_positive:
  assumes "parseLongerDistance p r = Inr (d, r1)"
  shows "1 \<le> d"
proof -
  from assms obtain moreBits r0 offset where
    m: "getBitsForwardOrder (drop_bit 1 (p - 3)) r = Inr (moreBits, r0)"
    and o: "arrayAt distanceOffsets (p - 1) = Inr offset"
    and d: "d = offset + moreBits"
    by (auto simp: parseLongerDistance_def Let_def split: sum.splits)
  from getBitsForwardOrder_nonneg [OF m] distanceOffsets_positive [OF o] d
  show ?thesis by simp
qed

lemma fixedDistance_positive:
  assumes "fixedDistance r = Inr (d, r1)"
  shows "1 \<le> d"
proof -
  from assms obtain g r0 where g: "getBits 5 r = Inr (g, r0)"
    by (auto simp: fixedDistance_def split: sum.splits)
  from getBits_bound [OF g] have v: "toInt (groupData g + 1) = uint (groupData g) + 1"
    by (rule succ_small)
  show ?thesis
  proof (cases "toInt (groupData g + 1) > 4")
    case True
    with assms g have "parseLongerDistance (toInt (groupData g + 1)) r0 = Inr (d, r1)"
      by (simp add: fixedDistance_def Let_def)
    then show ?thesis by (rule parseLongerDistance_positive)
  next
    case False
    with assms g have "d = toInt (groupData g + 1)"
      by (simp add: fixedDistance_def Let_def)
    with v show ?thesis by simp
  qed
qed

lemma searchRemainders_nonneg:
  "searchRemainders MaxSize t peeked i = Inr (n, w) \<Longrightarrow> 0 \<le> w \<and> 0 \<le> n"
proof (induction MaxSize t peeked i rule: searchRemainders.induct)
  case (1 MaxSize t peeked i)
  from "1.prems" show ?case
    by (subst (asm) searchRemainders.simps)
       (auto split: if_splits sum.splits dest: "1.IH")
qed

lemma readWord_nonneg:
  assumes "readWord MaxSize t r = Inr (w, r1)"
  shows "0 \<le> w"
proof -
  from assms obtain word r0 where
    first: "peekAByteAndConsumeSome
             (\<lambda>peeked. case arrayAt (codesIndex t) (uint peeked) of
                          Inl e \<Rightarrow> Inl e
                        | Inr word \<Rightarrow>
                            if word \<ge> MaxSize then Inr (8, word)
                            else if word = UNUSED then Inl UnknownHuffmanCodeFirst
                            else (case arrayAt (codes t) word of
                                    Inl e \<Rightarrow> Inl e
                                  | Inr entry \<Rightarrow> Inr (uint (codeLength entry), word)))
             r = Inr (word, r0)"
    by (auto simp: readWord_def split: sum.splits)
  show ?thesis
  proof (cases "word \<ge> MaxSize")
    case True
    with assms first have
      "peekAByteAndConsumeSome (\<lambda>peeked. searchRemainders MaxSize t peeked (word - MaxSize)) r0
        = Inr (w, r1)"
      by (simp add: readWord_def)
    then obtain b n where "searchRemainders MaxSize t b (word - MaxSize) = Inr (n, w)"
      by (auto simp: peekAByteAndConsumeSome_def split: sum.splits if_splits)
    then show ?thesis using searchRemainders_nonneg by blast
  next
    case False
    with assms first have w: "w = word" by (simp add: readWord_def)
    from first False obtain entry where "arrayAt (codes t) word = Inr entry"
      by (auto simp: peekAByteAndConsumeSome_def split: sum.splits if_splits)
    then have "0 \<le> word" by (auto simp: arrayAt_def split: if_splits)
    with w show ?thesis by simp
  qed
qed

lemma dynamicDistance_positive:
  assumes "dynamicDistance t r = Inr (d, r1)"
  shows "1 \<le> d"
proof -
  from assms obtain w r0 where w: "readWord 31 t r = Inr (w, r0)"
    by (auto simp: dynamicDistance_def split: sum.splits)
  from readWord_nonneg [OF w] have w0: "0 \<le> w" .
  show ?thesis
  proof (cases "w + 1 > 4")
    case True
    with assms w have "parseLongerDistance (w + 1) r0 = Inr (d, r1)"
      by (simp add: dynamicDistance_def Let_def)
    then show ?thesis by (rule parseLongerDistance_positive)
  next
    case False
    with assms w have "d = w + 1" by (simp add: dynamicDistance_def Let_def)
    with w0 show ?thesis by simp
  qed
qed


lemma restart_distance:
  assumes "restart out st = Some (Inr (c, st1, out1))"
  shows "copyDistance st1 = copyDistance st"
  using assms by (auto simp: restart_def Let_def split: option.splits sum.splits)

lemma restart_ok:
  assumes "restart out st = Some (Inr (c, st1, out1))" and "1 \<le> copyDistance st"
  shows "copyDistanceOk st1"
  using restart_distance [OF assms(1)] assms(2) by (simp add: copyDistanceOk_def)

lemma copy_ok:
  assumes "copy out len d st = Some (Inr (c, st1, out1))" and "1 \<le> d"
  shows "copyDistanceOk st1"
  using assms restart_ok [of out "st\<lparr>copyLength := len, copyDistance := d\<rparr>" c st1 out1]
  by (simp add: copy_def)

lemma fixedLoop_ok:
  assumes "fixedLoop st out = Some res"
  shows "copyDistanceOk st \<longrightarrow> (\<forall>y st1 out1. res = Inr (y, st1, out1) \<longrightarrow> copyDistanceOk st1)"
proof (rule fixedLoop.raw_induct [where P = "\<lambda>st out res. copyDistanceOk st \<longrightarrow>
    (\<forall>y st1 out1. res = Inr (y, st1, out1) \<longrightarrow> copyDistanceOk st1)", OF _ assms], goal_cases)
  case (1 fixedLoop st out res)
  note IH = 1(1) and step = 1(2)
  have keep: "copyDistanceOk (st\<lparr>fixedInput := r\<rparr>) = copyDistanceOk st" for r
    by (simp add: copyDistanceOk_def)
  show ?case
  proof (intro impI allI)
    fix y st1 out1
    assume ok: "copyDistanceOk st" and res: "res = Inr (y, st1, out1)"
    show "copyDistanceOk st1"
    proof (cases "available out \<noteq> 0")
      case False
      with step res ok show ?thesis by simp
    next
      case av: True
      show ?thesis
      proof (cases "getBits 7 (fixedInput st)")
        case (Inl e)
        with step av res show ?thesis by simp
      next
        case (Inr a)
        obtain part r1 where a: "a = (part, r1)" by (cases a)
        note gb = Inr [unfolded a]
        consider (eob) "groupData part = 0"
          | (lit8) "groupData part \<noteq> 0" "groupData part \<ge> 0b0011000 \<and> groupData part \<le> 0b1011111"
          | (lit9) "groupData part \<noteq> 0" "\<not> (groupData part \<ge> 0b0011000 \<and> groupData part \<le> 0b1011111)"
              "groupData part \<ge> 0b1100100"
          | (len) "groupData part \<noteq> 0" "\<not> (groupData part \<ge> 0b0011000 \<and> groupData part \<le> 0b1011111)"
              "\<not> groupData part \<ge> 0b1100100"
          by blast
        then show ?thesis
        proof cases
          case eob
          with step av gb res ok keep show ?thesis by auto
        next
          case lit8
          with step av gb have
            "(case getMore 1 part r1 of
                        Inl e \<Rightarrow> Some (Inl e)
                      | Inr (part1, r2) \<Rightarrow>
                          (case addByte (ucast (groupData part1 - 0b00110000)) out of
                             Inl e \<Rightarrow> Some (Inl e)
                           | Inr out1 \<Rightarrow> fixedLoop (st\<lparr>fixedInput := r2\<rparr>) out1)) = Some res"
            by simp
          then obtain r2 out2 where "fixedLoop (st\<lparr>fixedInput := r2\<rparr>) out2 = Some res"
            using res by (auto split: sum.splits)
          from IH [OF this] ok keep res show ?thesis by blast
        next
          case lit9
          with step av gb have
            "(case getMore 2 part r1 of
                        Inl e \<Rightarrow> Some (Inl e)
                      | Inr (part1, r2) \<Rightarrow>
                          (case addByte (ucast (groupData part1 - (0b110010000 - 144))) out of
                             Inl e \<Rightarrow> Some (Inl e)
                           | Inr out1 \<Rightarrow> fixedLoop (st\<lparr>fixedInput := r2\<rparr>) out1)) = Some res"
            by simp
          then obtain r2 out2 where "fixedLoop (st\<lparr>fixedInput := r2\<rparr>) out2 = Some res"
            using res by (auto split: sum.splits)
          from IH [OF this] ok keep res show ?thesis by blast
        next
          case len
          with step av gb have
            "(case fixedLength part r1 of
                        Inl e \<Rightarrow> Some (Inl e)
                      | Inr (size0, r2) \<Rightarrow>
                          (case fixedDistance r2 of
                             Inl e \<Rightarrow> Some (Inl e)
                           | Inr (distance, r3) \<Rightarrow>
                               (case copy out size0 distance (st\<lparr>fixedInput := r3\<rparr>) of
                                  None \<Rightarrow> None
                                | Some (Inl e) \<Rightarrow> Some (Inl e)
                                | Some (Inr (complete, st1, out1)) \<Rightarrow> fixedLoop st1 out1))) = Some res"
            by simp
          then obtain size0 r2 distance r3 c st2 out2 where
            fd: "fixedDistance r2 = Inr (distance, r3)"
            and cp: "copy out size0 distance (st\<lparr>fixedInput := r3\<rparr>) = Some (Inr (c, st2, out2))"
            and rec: "fixedLoop st2 out2 = Some res"
            using res by (auto split: sum.splits option.splits)
          from copy_ok [OF cp fixedDistance_positive [OF fd]] have "copyDistanceOk st2" .
          with IH [OF rec] res show ?thesis by blast
        qed
      qed
    qed
  qed
qed

lemma fixedParseSome_ok:
  assumes "fixedParseSome st out = Some (Inr (y, st1, out1))" and "copyDistanceOk st"
  shows "copyDistanceOk st1"
proof (cases "copyLength st > 0")
  case False
  with assms(1) have "fixedLoop st out = Some (Inr (y, st1, out1))"
    by (simp add: fixedParseSome_def)
  from fixedLoop_ok [OF this] assms(2) show ?thesis by blast
next
  case True
  with assms(2) have d: "1 \<le> copyDistance st" by (simp add: copyDistanceOk_def)
  from True assms(1) obtain c st2 out2 where rs: "restart out st = Some (Inr (c, st2, out2))"
    and rest: "(if c then Some (Inr (True, st2, out2)) else fixedLoop st2 out2)
        = Some (Inr (y, st1, out1))"
    by (auto simp: fixedParseSome_def split: option.splits sum.splits)
  from restart_ok [OF rs d] have ok2: "copyDistanceOk st2" .
  show ?thesis
  proof (cases c)
    case True
    with rest ok2 show ?thesis by simp
  next
    case False
    with rest have "fixedLoop st2 out2 = Some (Inr (y, st1, out1))" by simp
    from fixedLoop_ok [OF this] ok2 show ?thesis by blast
  qed
qed


lemma dynamicLoop_ok:
  assumes "dynamicLoop st out = Some res"
  shows "copyDistanceOk st \<longrightarrow> (\<forall>y st1 out1. res = Inr (y, st1, out1) \<longrightarrow> copyDistanceOk st1)"
proof (rule dynamicLoop.raw_induct [where P = "\<lambda>st out res. copyDistanceOk st \<longrightarrow>
    (\<forall>y st1 out1. res = Inr (y, st1, out1) \<longrightarrow> copyDistanceOk st1)", OF _ assms], goal_cases)
  case (1 dynamicLoop st out res)
  note IH = 1(1) and step = 1(2)
  have keep: "copyDistanceOk (st\<lparr>dynamicInput := r\<rparr>) = copyDistanceOk st" for r
    by (simp add: copyDistanceOk_def)
  show ?case
  proof (intro impI allI)
    fix y st1 out1
    assume ok: "copyDistanceOk st" and res: "res = Inr (y, st1, out1)"
    show "copyDistanceOk st1"
    proof (cases "available out \<noteq> 0")
      case False
      with step res ok show ?thesis by simp
    next
      case av: True
      show ?thesis
      proof (cases "readWord 288 (codesTable st) (dynamicInput st)")
        case (Inl e)
        with step av res show ?thesis by simp
      next
        case (Inr a)
        obtain word r1 where a: "a = (word, r1)" by (cases a)
        note rw = Inr [unfolded a]
        consider (lit) "word < 256" | (eob) "word = 256" | (len) "256 < word" by linarith
        then show ?thesis
        proof cases
          case lit
          with step av rw have
            "(case addByte (word_of_int word) out of
                        Inl e \<Rightarrow> Some (Inl e)
                      | Inr out1 \<Rightarrow> dynamicLoop (st\<lparr>dynamicInput := r1\<rparr>) out1) = Some res"
            by simp
          then obtain out2 where "dynamicLoop (st\<lparr>dynamicInput := r1\<rparr>) out2 = Some res"
            using res by (auto split: sum.splits)
          from IH [OF this] ok keep res show ?thesis by blast
        next
          case eob
          with step av rw res ok keep show ?thesis by auto
        next
          case len
          then have "\<not> word < 256" "word \<noteq> 256" by simp_all
          with step av rw have
            "(case dynamicLength word r1 of
                        Inl e \<Rightarrow> Some (Inl e)
                      | Inr (len, r2) \<Rightarrow>
                          (case dynamicDistance (distanceCode st) r2 of
                             Inl e \<Rightarrow> Some (Inl e)
                           | Inr (distance, r3) \<Rightarrow>
                               (case copy out len distance (st\<lparr>dynamicInput := r3\<rparr>) of
                                  None \<Rightarrow> None
                                | Some (Inl e) \<Rightarrow> Some (Inl e)
                                | Some (Inr (complete, st1, out1)) \<Rightarrow> dynamicLoop st1 out1))) = Some res"
            by simp
          then obtain len0 r2 distance r3 c st2 out2 where
            dd: "dynamicDistance (distanceCode st) r2 = Inr (distance, r3)"
            and cp: "copy out len0 distance (st\<lparr>dynamicInput := r3\<rparr>) = Some (Inr (c, st2, out2))"
            and rec: "dynamicLoop st2 out2 = Some res"
            using res by (auto split: sum.splits option.splits)
          from copy_ok [OF cp dynamicDistance_positive [OF dd]] have "copyDistanceOk st2" .
          with IH [OF rec] res show ?thesis by blast
        qed
      qed
    qed
  qed
qed

lemma dynamicParseSome_ok:
  assumes "dynamicParseSome st out = Some (Inr (y, st1, out1))" and "copyDistanceOk st"
  shows "copyDistanceOk st1"
proof (cases "copyLength st > 0")
  case False
  with assms(1) have "dynamicLoop st out = Some (Inr (y, st1, out1))"
    by (simp add: dynamicParseSome_def)
  from dynamicLoop_ok [OF this] assms(2) show ?thesis by blast
next
  case True
  with assms(2) have d: "1 \<le> copyDistance st" by (simp add: copyDistanceOk_def)
  from True assms(1) obtain c st2 out2 where rs: "restart out st = Some (Inr (c, st2, out2))"
    and rest: "(if c then Some (Inr (True, st2, out2)) else dynamicLoop st2 out2)
        = Some (Inr (y, st1, out1))"
    by (auto simp: dynamicParseSome_def split: option.splits sum.splits)
  from restart_ok [OF rs d] have ok2: "copyDistanceOk st2" .
  show ?thesis
  proof (cases c)
    case True
    with rest ok2 show ?thesis by simp
  next
    case False
    with rest have "dynamicLoop st2 out2 = Some (Inr (y, st1, out1))" by simp
    from dynamicLoop_ok [OF this] ok2 show ?thesis by blast
  qed
qed

lemma repeatLoop_returns:
  assumes "1 \<le> distance"
  shows "\<exists>res. repeatLoop len distance written out = Some res"
proof (induction "nat (len - written)" arbitrary: written out rule: less_induct)
  case less
  show ?case
  proof (cases "written < len")
    case False
    then show ?thesis by (subst repeatLoop.simps) simp
  next
    case lt: True
    show ?thesis
    proof (cases "distance > used out")
      case True
      with lt show ?thesis by (subst repeatLoop.simps) simp
    next
      case nd: False
      define toWrite where "toWrite = min distance (len - written)"
      from assms lt have tw: "1 \<le> toWrite" by (simp add: toWrite_def)
      show ?thesis
      proof (cases "spanAt (outBuffer out) (used out - distance) toWrite")
        case (Inl e)
        with lt nd show ?thesis by (subst repeatLoop.simps) (simp add: toWrite_def Let_def)
      next
        case moved: (Inr moved)
        show ?thesis
        proof (cases "writeAt (outBuffer out) (used out) moved")
          case (Inl e)
          with lt nd moved show ?thesis by (subst repeatLoop.simps) (simp add: toWrite_def Let_def)
        next
          case (Inr buf)
          from tw lt have "nat (len - (written + toWrite)) < nat (len - written)" by simp
          from less [OF this]
          obtain res where "repeatLoop len distance (written + toWrite)
              (out\<lparr>outBuffer := buf, used := used out + toWrite\<rparr>) = Some res" by blast
          with lt nd moved Inr show ?thesis
            by (subst repeatLoop.simps) (simp add: toWrite_def Let_def)
        qed
      qed
    qed
  qed
qed

lemma repeatSequence_returns:
  assumes "1 \<le> distance"
  shows "\<exists>res. repeatSequence len distance out = Some res"
  using repeatLoop_returns [OF assms, of len 0 out]
  by (cases "checkSize len out") (auto simp: repeatSequence_def)

lemma repeatLoop_zero_aux:
  assumes "repeatLoop len distance written out = Some res"
  shows "\<not> (distance = 0 \<and> written < len \<and> 0 \<le> used out
            \<and> used out \<le> int (length (outBuffer out)))"
proof (rule repeatLoop.raw_induct [where P = "\<lambda>len distance written out res.
    \<not> (distance = 0 \<and> written < len \<and> 0 \<le> used out
         \<and> used out \<le> int (length (outBuffer out)))", OF _ assms], goal_cases)
  case (1 f len distance written out res)
  show ?case
  proof
    assume a: "distance = 0 \<and> written < len \<and> 0 \<le> used out
        \<and> used out \<le> int (length (outBuffer out))"
    then have s: "spanAt (outBuffer out) (used out - distance) (min distance (len - written))
        = Inr []"
      by (simp add: spanAt_def)
    from a have w: "writeAt (outBuffer out) (used out) [] = Inr (outBuffer out)"
      by (simp add: writeAt_def)
    from 1(2) a s w
    have "f len distance written (out\<lparr>outBuffer := outBuffer out, used := used out\<rparr>) = Some res"
      by (simp add: Let_def)
    from 1(1) [OF this] a show False by simp
  qed
qed

lemma repeatLoop_zero_distance:
  assumes "written < len" and "0 \<le> used out" and "used out \<le> int (length (outBuffer out))"
  shows "repeatLoop len 0 written out = None"
proof (cases "repeatLoop len 0 written out")
  case None
  then show ?thesis .
next
  case (Some res)
  from repeatLoop_zero_aux [OF this] assms show ?thesis by simp
qed

text \<open>
  Claim C6.  In a dynamic block, with \<open>word\<close> the symbol read from the literal/length
  table: the symbols 257 to 264 give the lengths 3 to 10 and read no further bit; the symbols
  265 to 284 read \<open>e = (word - 261) >> 2\<close> extra bits and give the smallest length of the
  symbol in the table of RFC 1951 plus the value of the extra bits; 285 gives 258 and reads no
  bit; 256 ends the loop of the block with the result "no more work".  With \<open>ds\<close> the symbol
  read from the distance table: 0 to 3 give the distances 1 to 4 and read no further bit, and 4
  to 29 read \<open>(ds - 2) >> 1\<close> extra bits and give the base offset of the symbol plus their
  value.  The pair so decoded is the one given to \<open>copy\<close>.
\<close>

theorem C6_dynamic_length_distance:
  "(257 \<le> word \<and> word \<le> 264 \<longrightarrow>
      dynamicLength word r = Inr (word - 254, r) \<and> rfcLengthBase word = word - 254)
   \<and> (265 \<le> word \<and> word \<le> 284 \<longrightarrow>
      dynamicLength word r =
        (case getBitsForwardOrder (drop_bit 2 (word - 261)) r of
           Inl e \<Rightarrow> Inl e
         | Inr (x, r1) \<Rightarrow> Inr (rfcLengthBase word + x, r1)))
   \<and> dynamicLength 285 r = Inr (258, r)
   \<and> (available out \<noteq> 0 \<and> readWord 288 (codesTable st) (dynamicInput st) = Inr (256, r1) \<longrightarrow>
      dynamicLoop st out = Some (Inr (False, st\<lparr>dynamicInput := r1\<rparr>, out)))
   \<and> (readWord 31 t r = Inr (ds, r1) \<and> 0 \<le> ds \<and> ds \<le> 3 \<longrightarrow>
      dynamicDistance t r = Inr (ds + 1, r1) \<and> specDistanceBase ds = ds + 1)
   \<and> (readWord 31 t r = Inr (ds, r1) \<and> 4 \<le> ds \<and> ds \<le> 29 \<longrightarrow>
      dynamicDistance t r =
        (case getBitsForwardOrder (drop_bit 1 (ds - 2)) r1 of
           Inl e \<Rightarrow> Inl e
         | Inr (x, r2) \<Rightarrow> Inr (specDistanceBase ds + x, r2)))
   \<and> (available out \<noteq> 0 \<and> readWord 288 (codesTable st) (dynamicInput st) = Inr (word, r1)
        \<and> 256 < word \<and> dynamicLength word r1 = Inr (len, r2)
        \<and> dynamicDistance (distanceCode st) r2 = Inr (distance, r3) \<longrightarrow>
      dynamicLoop st out =
        (case copy out len distance (st\<lparr>dynamicInput := r3\<rparr>) of
           None \<Rightarrow> None
         | Some (Inl e) \<Rightarrow> Some (Inl e)
         | Some (Inr (complete, st1, out1)) \<Rightarrow> dynamicLoop st1 out1))"
proof (intro conjI impI)
  assume a: "257 \<le> word \<and> word \<le> 264"
  then show "dynamicLength word r = Inr (word - 254, r)"
    by (simp add: dynamicLength_def Let_def)
  from a have "word - 257 \<in> set [0..7]" by (simp only: set_upto atLeastAtMost_iff) simp
  moreover have "\<forall>k \<in> set [0..7]. rfcLengthBases ! nat k = k + 3"
    unfolding rfcLengthBases_def by code_simp
  ultimately have "rfcLengthBases ! nat (word - 257) = word - 257 + 3" by blast
  then show "rfcLengthBase word = word - 254" by (simp add: rfcLengthBase_def)
next
  assume a: "265 \<le> word \<and> word \<le> 284"
  then have p: "11 \<le> word - 254" "word - 254 \<le> 30" by simp_all
  have e: "word - 254 - 7 = word - 261" "word - 254 + 254 = word" by simp_all
  from a parseLongerSize_rfc [OF p, of r, unfolded e]
  show "dynamicLength word r =
        (case getBitsForwardOrder (drop_bit 2 (word - 261)) r of
           Inl e \<Rightarrow> Inl e
         | Inr (x, r1) \<Rightarrow> Inr (rfcLengthBase word + x, r1))"
    by (simp add: dynamicLength_def Let_def e)
next
  show "dynamicLength 285 r = Inr (258, r)"
    by (simp add: dynamicLength_def parseLongerSize_def)
next
  assume "available out \<noteq> 0 \<and> readWord 288 (codesTable st) (dynamicInput st) = Inr (256, r1)"
  then show "dynamicLoop st out = Some (Inr (False, st\<lparr>dynamicInput := r1\<rparr>, out))"
    by (subst dynamicLoop.simps) simp
next
  assume a: "readWord 31 t r = Inr (ds, r1) \<and> 0 \<le> ds \<and> ds \<le> 3"
  then show "dynamicDistance t r = Inr (ds + 1, r1)"
    by (simp add: dynamicDistance_def Let_def)
  from a have "ds \<in> set [0..3]" by (simp only: set_upto atLeastAtMost_iff)
  moreover have "\<forall>k \<in> set [0..3]. specDistanceBases ! nat k = k + 1"
    unfolding specDistanceBases_def by code_simp
  ultimately show "specDistanceBase ds = ds + 1" by (simp add: specDistanceBase_def)
next
  assume a: "readWord 31 t r = Inr (ds, r1) \<and> 4 \<le> ds \<and> ds \<le> 29"
  then have p: "4 \<le> ds" "ds \<le> 29" by simp_all
  from a parseLongerDistance_spec [OF p, of r1]
  show "dynamicDistance t r =
        (case getBitsForwardOrder (drop_bit 1 (ds - 2)) r1 of
           Inl e \<Rightarrow> Inl e
         | Inr (x, r2) \<Rightarrow> Inr (specDistanceBase ds + x, r2))"
    by (simp add: dynamicDistance_def Let_def)
next
  assume "available out \<noteq> 0 \<and> readWord 288 (codesTable st) (dynamicInput st) = Inr (word, r1)
        \<and> 256 < word \<and> dynamicLength word r1 = Inr (len, r2)
        \<and> dynamicDistance (distanceCode st) r2 = Inr (distance, r3)"
  then show "dynamicLoop st out =
        (case copy out len distance (st\<lparr>dynamicInput := r3\<rparr>) of
           None \<Rightarrow> None
         | Some (Inl e) \<Rightarrow> Some (Inl e)
         | Some (Inr (complete, st1, out1)) \<Rightarrow> dynamicLoop st1 out1)"
    by (subst dynamicLoop.simps) simp
qed

text \<open>The theorem at the symbols 260 and 265 (with the extra bit 1), at an end of block, and
  at the distance symbols 2 and 5 (with the extra bit 1).\<close>

theorem C6_dynamic_length_distance_witness:
  "dynamicLength 260 (registerReader 1) = Inr (6, registerReader 1)
   \<and> rfcLengthBase 260 = 6
   \<and> getBitsForwardOrder 1 (registerReader 1) = Inr (1, registerReaderAfter 1 1)
   \<and> rfcLengthBase 265 = 11
   \<and> dynamicLength 265 (registerReader 1) = Inr (12, registerReaderAfter 1 1)
   \<and> readWord 288 (codesTable (exampleDynamicState 0)) (dynamicInput (exampleDynamicState 0))
        = Inr (256, registerReaderAfter 1 0)
   \<and> dynamicLoop (exampleDynamicState 0) (newByteOutput smallSettings)
        = Some (Inr (False, (exampleDynamicState 0)\<lparr>dynamicInput := registerReaderAfter 1 0\<rparr>,
                     newByteOutput smallSettings))
   \<and> readWord 31 (constantTable 31 2) (registerReader 2) = Inr (2, registerReaderAfter 1 2)
   \<and> dynamicDistance (constantTable 31 2) (registerReader 2) = Inr (3, registerReaderAfter 1 2)
   \<and> readWord 31 (constantTable 31 5) (registerReader 2) = Inr (5, registerReaderAfter 1 2)
   \<and> getBitsForwardOrder 1 (registerReaderAfter 1 2) = Inr (1, registerReaderAfter 2 2)
   \<and> specDistanceBase 5 = 7
   \<and> dynamicDistance (constantTable 31 5) (registerReader 2) = Inr (8, registerReaderAfter 2 2)"
proof -
  have a1: "dynamicLength 260 (registerReader 1) = Inr (6, registerReader 1)
      \<and> rfcLengthBase 260 = 6"
    using C6_dynamic_length_distance [of 260 "registerReader 1", THEN conjunct1] by simp
  have h2: "getBitsForwardOrder 1 (registerReader 1) = Inr (1, registerReaderAfter 1 1)"
    by code_simp
  have b2: "rfcLengthBase 265 = 11"
    by (simp add: rfcLengthBase_def rfcLengthBases_def)
  have a2: "dynamicLength 265 (registerReader 1) = Inr (12, registerReaderAfter 1 1)"
    using C6_dynamic_length_distance [of 265 "registerReader 1", THEN conjunct2, THEN conjunct1] h2 b2 by simp
  have h3: "readWord 288 (codesTable (exampleDynamicState 0)) (dynamicInput (exampleDynamicState 0))
        = Inr (256, registerReaderAfter 1 0)"
    by code_simp
  have h3': "available (newByteOutput smallSettings) \<noteq> 0"
    by code_simp
  have a3: "dynamicLoop (exampleDynamicState 0) (newByteOutput smallSettings)
        = Some (Inr (False, (exampleDynamicState 0)\<lparr>dynamicInput := registerReaderAfter 1 0\<rparr>,
                     newByteOutput smallSettings))"
    using C6_dynamic_length_distance [of _ _ "newByteOutput smallSettings" "exampleDynamicState 0"
        "registerReaderAfter 1 0", THEN conjunct2, THEN conjunct2, THEN conjunct2, THEN conjunct1] h3 h3' by blast
  have h4: "readWord 31 (constantTable 31 2) (registerReader 2) = Inr (2, registerReaderAfter 1 2)"
    by code_simp
  have a4: "dynamicDistance (constantTable 31 2) (registerReader 2) = Inr (3, registerReaderAfter 1 2)"
    using C6_dynamic_length_distance [of _ "registerReader 2" _ _ "registerReaderAfter 1 2"
        "constantTable 31 2" 2, THEN conjunct2, THEN conjunct2, THEN conjunct2, THEN conjunct2, THEN conjunct1] h4 by simp
  have h5: "readWord 31 (constantTable 31 5) (registerReader 2) = Inr (5, registerReaderAfter 1 2)"
    by code_simp
  have h6: "getBitsForwardOrder 1 (registerReaderAfter 1 2) = Inr (1, registerReaderAfter 2 2)"
    by code_simp
  have b5: "specDistanceBase 5 = 7"
    by (simp add: specDistanceBase_def specDistanceBases_def)
  have a5: "dynamicDistance (constantTable 31 5) (registerReader 2) = Inr (8, registerReaderAfter 2 2)"
    using C6_dynamic_length_distance [of _ "registerReader 2" _ _ "registerReaderAfter 1 2"
        "constantTable 31 5" 5, THEN conjunct2, THEN conjunct2, THEN conjunct2, THEN conjunct2, THEN conjunct2, THEN conjunct1] h5 h6 b5 by (simp add: drop_bit_eq_div)
  show ?thesis
    using a1 h2 b2 a2 h3 a3 h4 a4 h5 h6 b5 a5 by blast
qed

section \<open>The distances of matches\<close>

text \<open>
  For the distance symbols 0 to 29 the distance a fixed block decodes (\<open>fixedDistance\<close>) and
  the one a dynamic block decodes (\<open>dynamicDistance\<close>) are at least 1: each is a non-negative
  value plus one, or an entry of \<open>distanceOffsets\<close> plus a non-negative value.  \<open>copy\<close> stores
  that distance and \<open>restart\<close> hands \<open>copyDistance\<close> to \<open>repeatSequence\<close>; a substate starts
  with no pending copy, and both \<open>parseSome\<close> keep the property that a pending copy has a
  distance of at least 1.  Every result \<open>Inr\<close> of the two functions is of such a symbol.
\<close>

lemma distance_in_table_at_least_one:
  "(fixedDistance r = Inr (d, r1) \<longrightarrow> 1 \<le> d)
   \<and> (dynamicDistance t r = Inr (d, r1) \<longrightarrow> 1 \<le> d)
   \<and> copyDistanceOk (newFixedCodeState r)
   \<and> (newDynamicCodeState r codeCount distanceCodeCount lk ls = Inr dst \<longrightarrow> copyDistanceOk dst)
   \<and> (copyDistanceOk fst0 \<and> fixedParseSome fst0 out = Some (Inr (y, fst1, out1))
        \<longrightarrow> copyDistanceOk fst1)
   \<and> (copyDistanceOk dst0 \<and> dynamicParseSome dst0 out = Some (Inr (y, dst1, out1))
        \<longrightarrow> copyDistanceOk dst1)"
proof (intro conjI impI)
  assume "fixedDistance r = Inr (d, r1)"
  then show "1 \<le> d" by (rule fixedDistance_positive)
next
  assume "dynamicDistance t r = Inr (d, r1)"
  then show "1 \<le> d" by (rule dynamicDistance_positive)
next
  show "copyDistanceOk (newFixedCodeState r)"
    by (simp add: copyDistanceOk_def newFixedCodeState_def)
next
  assume "newDynamicCodeState r codeCount distanceCodeCount lk ls = Inr dst"
  then have "copyLength dst = 0"
    by (auto simp: newDynamicCodeState_def split: sum.splits)
  then show "copyDistanceOk dst" by (simp add: copyDistanceOk_def)
next
  assume "copyDistanceOk fst0 \<and> fixedParseSome fst0 out = Some (Inr (y, fst1, out1))"
  then show "copyDistanceOk fst1" using fixedParseSome_ok by blast
next
  assume "copyDistanceOk dst0 \<and> dynamicParseSome dst0 out = Some (Inr (y, dst1, out1))"
  then show "copyDistanceOk dst1" using dynamicParseSome_ok by blast
qed

text \<open>The distance codes 0 (fixed) and 5 with an extra bit (dynamic), a dynamic state built
  from a header, and a fixed and a dynamic block whose copy fills the output and stays pending
  with the distances 1 and 3.\<close>

lemma distance_in_table_examples:
  "fixedDistance (registerReader 0) = Inr (1, registerReaderAfter 5 0) \<and> (1 :: int) \<le> 1
   \<and> dynamicDistance (constantTable 31 5) (registerReader 2) = Inr (8, registerReaderAfter 2 2)
   \<and> (1 :: int) \<le> 8
   \<and> (case newDynamicCodeState (registerReader 0xFEFE) 257 1 metaLookup18 metaLengths18 of
         Inl e \<Rightarrow> False | Inr dst \<Rightarrow> copyDistanceOk dst)
   \<and> copyDistanceOk (newFixedCodeState (registerReader 0xD889))
   \<and> fixedParseSome (newFixedCodeState (registerReader 0xD889)) (newByteOutput smallSettings)
        = Some (Inr (True,
                     \<lparr>copyDistance = 1, copyLength = 5, fixedInput = registerReaderAfter 22 0xD889\<rparr>,
                     \<lparr>outBuffer = replicate 16 97, used = 16, consumed = 0, expectsMore = True,
                      checksum = ()\<rparr>))
   \<and> copyDistanceOk \<lparr>copyDistance = 1, copyLength = 5, fixedInput = registerReaderAfter 22 0xD889\<rparr>
   \<and> copyDistanceOk (exampleCopyState 0)
   \<and> dynamicParseSome (exampleCopyState 0) ((newByteOutput smallSettings)\<lparr>used := 3\<rparr>)
        = Some (Inr (True,
                     (exampleCopyState 0)\<lparr>copyDistance := 3, copyLength := 5,
                                           dynamicInput := registerReaderAfter 6 0\<rparr>,
                     (newByteOutput smallSettings)\<lparr>used := 16\<rparr>))
   \<and> copyDistanceOk ((exampleCopyState 0)\<lparr>copyDistance := 3, copyLength := 5,
                                           dynamicInput := registerReaderAfter 6 0\<rparr>)"
proof -
  have h1: "fixedDistance (registerReader 0) = Inr (1, registerReaderAfter 5 0)"
    by code_simp
  have c1: "(1 :: int) \<le> 1"
    using distance_in_table_at_least_one [of "registerReader 0" 1 "registerReaderAfter 5 0", THEN conjunct1] h1 by blast
  have h2: "dynamicDistance (constantTable 31 5) (registerReader 2) = Inr (8, registerReaderAfter 2 2)"
    by code_simp
  have c2: "(1 :: int) \<le> 8"
    using distance_in_table_at_least_one [of "registerReader 2" 8 "registerReaderAfter 2 2"
        "constantTable 31 5", THEN conjunct2, THEN conjunct1] h2 by blast
  have h3: "(case newDynamicCodeState (registerReader 0xFEFE) 257 1 metaLookup18 metaLengths18 of
         Inl e \<Rightarrow> False | Inr dst \<Rightarrow> True)"
    by code_simp
  then obtain dst where
    d: "newDynamicCodeState (registerReader 0xFEFE) 257 1 metaLookup18 metaLengths18 = Inr dst"
    by (cases "newDynamicCodeState (registerReader 0xFEFE) 257 1 metaLookup18 metaLengths18") auto
  have "copyDistanceOk dst"
    using distance_in_table_at_least_one [of "registerReader 0xFEFE" _ _ _ 257 1 metaLookup18
        metaLengths18 dst, THEN conjunct2, THEN conjunct2, THEN conjunct2, THEN conjunct1] d by blast
  with d have c3: "(case newDynamicCodeState (registerReader 0xFEFE) 257 1 metaLookup18 metaLengths18 of
         Inl e \<Rightarrow> False | Inr dst \<Rightarrow> copyDistanceOk dst)"
    by simp
  have c4: "copyDistanceOk (newFixedCodeState (registerReader 0xD889))"
    using distance_in_table_at_least_one [of "registerReader 0xD889", THEN conjunct2, THEN conjunct2, THEN conjunct1] by blast
  have h5: "fixedParseSome (newFixedCodeState (registerReader 0xD889)) (newByteOutput smallSettings)
        = Some (Inr (True,
                     \<lparr>copyDistance = 1, copyLength = 5, fixedInput = registerReaderAfter 22 0xD889\<rparr>,
                     \<lparr>outBuffer = replicate 16 97, used = 16, consumed = 0, expectsMore = True,
                      checksum = ()\<rparr>))"
    by code_simp
  have c5: "copyDistanceOk \<lparr>copyDistance = 1, copyLength = 5, fixedInput = registerReaderAfter 22 0xD889\<rparr>"
    using distance_in_table_at_least_one [of _ _ _ _ _ _ _ _ _ "newFixedCodeState (registerReader 0xD889)"
        "newByteOutput smallSettings" True
        "\<lparr>copyDistance = 1, copyLength = 5, fixedInput = registerReaderAfter 22 0xD889\<rparr>"
        "\<lparr>outBuffer = replicate 16 97, used = 16, consumed = 0, expectsMore = True,
                      checksum = ()\<rparr>", THEN conjunct2, THEN conjunct2, THEN conjunct2, THEN conjunct2, THEN conjunct1] c4 h5 by blast
  have h6: "copyDistanceOk (exampleCopyState 0)"
    by (simp add: copyDistanceOk_def exampleCopyState_def)
  have h7: "dynamicParseSome (exampleCopyState 0) ((newByteOutput smallSettings)\<lparr>used := 3\<rparr>)
        = Some (Inr (True,
                     (exampleCopyState 0)\<lparr>copyDistance := 3, copyLength := 5,
                                           dynamicInput := registerReaderAfter 6 0\<rparr>,
                     (newByteOutput smallSettings)\<lparr>used := 16\<rparr>))"
    by code_simp
  have c6: "copyDistanceOk ((exampleCopyState 0)\<lparr>copyDistance := 3, copyLength := 5,
                                           dynamicInput := registerReaderAfter 6 0\<rparr>)"
    using distance_in_table_at_least_one [of _ _ _ _ _ _ _ _ _ _
        "(newByteOutput smallSettings)\<lparr>used := 3\<rparr>" True _ _ "exampleCopyState 0"
        "(exampleCopyState 0)\<lparr>copyDistance := 3, copyLength := 5,
                                           dynamicInput := registerReaderAfter 6 0\<rparr>",
        THEN conjunct2, THEN conjunct2, THEN conjunct2, THEN conjunct2, THEN conjunct2] h6 h7
    by blast
  show ?thesis using h1 c1 h2 c2 c3 c4 h5 c5 h6 h7 c6 by blast
qed

text \<open>With a distance of at least 1 \<open>repeatSequence\<close> returns; with the distance 0 its loop
  never does (the lemmas \<open>repeatSequence_returns\<close> and \<open>repeatLoop_zero_distance\<close>
  above).\<close>

text \<open>
  Claim C9 does not hold of the program.  The distance field of a fixed block has 5 bits, so it
  can hold the symbols 30 and 31, and the distance table of a dynamic block has room for the
  symbol 30.  For them \<open>parseLongerDistance\<close> reads 14 extra bits and then indexes
  \<open>distanceOffsets\<close> at 30 or 31, outside its 30 entries.  The source does not check the index:
  it adds the extra bits to what it finds behind the table and hands the sum to \<open>copy\<close> and so
  to \<open>repeatSequence\<close>; that sum is no decoded value plus one, and nothing keeps it from being
  0 or negative.  The model has no value for a read outside an array: the run ends there with
  \<open>UndefinedBehaviour\<close>.  The stream below is a final fixed block with the literal "a", the
  length symbol 257 and the distance code 11110.
\<close>

theorem C9_distance_symbol_30:
  "length distanceOffsets = 30
   \<and> fixedDistance (registerReader 0x0F) = Inl UndefinedBehaviour
   \<and> fixedDistance (registerReader 0x1F) = Inl UndefinedBehaviour
   \<and> dynamicDistance (constantTable 31 30) (registerReader 0) = Inl UndefinedBehaviour
   \<and> readDeflateIntoVector smallSettings [0x4B, 0x04, 0x3E, 0x00, 0x00, 0x00]
       = Some (Inl UndefinedBehaviour)"
  by code_simp

section \<open>The trailer of a GZIP member\<close>

text \<open>\<open>refillSome\<close>, \<open>getRange\<close>, \<open>ensureSize\<close> and \<open>getInteger\<close> move bytes
  from the source into the buffer and the position forward; what they hand out is the front of
  the bytes still to be read, and nothing is lost or reordered.\<close>

lemma callReadMore_split:
  assumes "callReadMore s n = Inr (batch, s1)"
  shows "batch @ sourceData s1 = sourceData s \<and> length batch \<le> n"
  using assms by (cases s) (auto simp: Let_def split: if_splits)

lemma spanAt_Inr:
  "spanAt xs start n = Inr ys \<longleftrightarrow>
     0 \<le> start \<and> 0 \<le> n \<and> start + n \<le> int (length xs) \<and> ys = take (nat n) (drop (nat start) xs)"
  by (auto simp: spanAt_def)

lemma writeAt_Inr:
  "writeAt xs start ys = Inr zs \<longleftrightarrow>
     0 \<le> start \<and> start + int (length ys) \<le> int (length xs)
     \<and> zs = take (nat start) xs @ ys @ drop (nat start + length ys) xs"
  by (auto simp: writeAt_def)

lemma compact_unread:
  assumes "wfInput inp"
    and "spanAt (buffer inp) (position inp) (filled inp - position inp) = Inr moved"
    and "writeAt (buffer inp) 0 moved = Inr b"
  shows "wfInput (inp\<lparr>filled := filled inp - position inp, buffer := b, position := 0\<rparr>)
         \<and> unread (inp\<lparr>filled := filled inp - position inp, buffer := b, position := 0\<rparr>) = unread inp
         \<and> length b = length (buffer inp)"
proof -
  from assms(2) have m: "moved = unread inp" by (simp add: spanAt_Inr unread_def)
  from assms(1) have "nat (filled inp - position inp) \<le> length (buffer inp) - nat (position inp)"
    unfolding wfInput_def by linarith
  then have lm: "length (unread inp) = nat (filled inp - position inp)"
    by (simp add: unread_def)
  from assms(3) have b: "b = moved @ drop (length moved) (buffer inp)"
    and le: "length moved \<le> length (buffer inp)"
    by (auto simp: writeAt_Inr)
  from b le have lb: "length b = length (buffer inp)" by simp
  from b m lm have "take (nat (filled inp - position inp)) b = unread inp" by simp
  with assms(1) lb show ?thesis by (simp add: wfInput_def unread_def)
qed

lemma append_unread:
  assumes "wfInput inp" and "writeAt (buffer inp) (filled inp) batch = Inr b"
  shows "wfInput (inp\<lparr>buffer := b, filled := filled inp + int (length batch), readMore := src\<rparr>)
         \<and> unread (inp\<lparr>buffer := b, filled := filled inp + int (length batch), readMore := src\<rparr>)
             = unread inp @ batch"
proof -
  from assms(2) have b: "b = take (nat (filled inp)) (buffer inp) @ batch
        @ drop (nat (filled inp) + length batch) (buffer inp)"
    and le: "filled inp + int (length batch) \<le> int (length (buffer inp))"
    by (auto simp: writeAt_Inr)
  from assms(1) have p: "0 \<le> position inp" "position inp \<le> filled inp"
    "filled inp \<le> int (length (buffer inp))" by (auto simp: wfInput_def)
  from b le p have lb: "length b = length (buffer inp)" by simp
  define f where "f = nat (filled inp)"
  define q where "q = nat (position inp)"
  have qf: "q \<le> f" "f \<le> length (buffer inp)" using p by (auto simp: f_def q_def)
  have "take (nat (filled inp + int (length batch) - position inp)) (drop (nat (position inp)) b)
      = take (f - q + length batch) (drop q b)"
    using p by (simp add: f_def q_def nat_diff_distrib nat_add_distrib)
  also have "drop q b = drop q (take f (buffer inp)) @ batch @ drop (f + length batch) (buffer inp)"
    using qf by (simp add: b f_def [symmetric])
  also have "take (f - q + length batch) \<dots> = drop q (take f (buffer inp)) @ batch"
    using qf by simp
  also have "drop q (take f (buffer inp)) = take (f - q) (drop q (buffer inp))"
    by (simp add: drop_take)
  also have "\<dots> = unread inp"
    using p by (simp add: unread_def f_def q_def nat_diff_distrib)
  finally have "unread (inp\<lparr>buffer := b, filled := filled inp + int (length batch), readMore := src\<rparr>)
      = unread inp @ batch"
    by (simp add: unread_def)
  with p le lb show ?thesis by (simp add: wfInput_def)
qed

lemma refillSome_pending:
  assumes "wfInput inp" and "refillSome inp = Inr (added, inp1)"
  shows "wfInput inp1 \<and> pending inp1 = pending inp"
proof -
  from assms(2) obtain inp0 batch src b where
    c: "(if position inp > int (length (buffer inp)) div 2
            then (case spanAt (buffer inp) (position inp) (filled inp - position inp) of
                    Inl e \<Rightarrow> Inl e
                  | Inr moved \<Rightarrow>
                      (case writeAt (buffer inp) 0 moved of
                         Inl e \<Rightarrow> Inl e
                       | Inr b \<Rightarrow>
                           Inr (inp\<lparr>filled := filled inp - position inp, buffer := b,
                                    position := 0\<rparr>)))
            else Inr inp) = Inr inp0"
    and r: "callReadMore (readMore inp0) (nat (int (length (buffer inp0)) - filled inp0)) = Inr (batch, src)"
    and w: "writeAt (buffer inp0) (filled inp0) batch = Inr b"
    and i1: "inp1 = inp0\<lparr>buffer := b, filled := filled inp0 + int (length batch), readMore := src\<rparr>"
    by (auto simp: refillSome_def split: sum.splits prod.splits)
  have w0: "wfInput inp0 \<and> unread inp0 = unread inp \<and> readMore inp0 = readMore inp"
  proof (cases "position inp > int (length (buffer inp)) div 2")
    case False
    with c assms(1) show ?thesis by simp
  next
    case True
    with c obtain moved b0 where
      s: "spanAt (buffer inp) (position inp) (filled inp - position inp) = Inr moved"
      and w: "writeAt (buffer inp) 0 moved = Inr b0"
      and i0: "inp0 = inp\<lparr>filled := filled inp - position inp, buffer := b0, position := 0\<rparr>"
      by (auto split: sum.splits)
    from compact_unread [OF assms(1) s w] show ?thesis by (simp add: i0)
  qed
  from append_unread [OF conjunct1 [OF w0] w, of src] i1
  have "wfInput inp1" and u: "unread inp1 = unread inp0 @ batch" by simp_all
  moreover from callReadMore_split [OF r] have "batch @ sourceData src = sourceData (readMore inp0)"
    by simp
  ultimately show ?thesis using w0 i1 by (simp add: pending_def)
qed

lemma getRange_pending:
  assumes "wfInput inp" and "getRange n inp = Inr (chunk, inp1)"
  shows "wfInput inp1 \<and> chunk @ pending inp1 = pending inp \<and> int (length chunk) \<le> n"
proof -
  from assms(2) obtain inp0 where
    c: "(if position inp + n \<ge> filled inp
            then (case refillSome inp of Inl e \<Rightarrow> Inl e | Inr (added, inp1) \<Rightarrow> Inr inp1)
            else Inr inp) = Inr inp0"
    and s: "spanAt (buffer inp0) (position inp0) (min n (filled inp0 - position inp0)) = Inr chunk"
    and i1: "inp1 = inp0\<lparr>position := position inp0 + min n (filled inp0 - position inp0)\<rparr>"
    by (auto simp: getRange_def Let_def split: sum.splits)
  have w0: "wfInput inp0 \<and> pending inp0 = pending inp"
  proof (cases "position inp + n \<ge> filled inp")
    case False
    with c assms(1) show ?thesis by simp
  next
    case True
    with c obtain added where "refillSome inp = Inr (added, inp0)"
      by (auto split: sum.splits)
    from refillSome_pending [OF assms(1) this] show ?thesis .
  qed
  define a where "a = min n (filled inp0 - position inp0)"
  from s have a0: "0 \<le> a" and ch: "chunk = take (nat a) (drop (nat (position inp0)) (buffer inp0))"
    by (auto simp: spanAt_Inr a_def)
  from w0 have p: "0 \<le> position inp0" "position inp0 \<le> filled inp0"
    "filled inp0 \<le> int (length (buffer inp0))" by (auto simp: wfInput_def)
  have af: "a \<le> filled inp0 - position inp0" and an: "a \<le> n" by (auto simp: a_def)
  have len: "int (length chunk) = a"
    using a0 af p by (simp add: ch)
  have "unread inp0 = take (nat a) (drop (nat (position inp0)) (buffer inp0))
      @ take (nat (filled inp0 - position inp0) - nat a) (drop (nat a) (drop (nat (position inp0)) (buffer inp0)))"
    using a0 af unfolding unread_def
    by (metis append_take_drop_id take_drop le_add_diff_inverse nat_le_iff nat_mono take_add)
  also have "nat (filled inp0 - position inp0) - nat a = nat (filled inp0 - (position inp0 + a))"
    using a0 af by simp
  also have "drop (nat a) (drop (nat (position inp0)) (buffer inp0))
      = drop (nat (position inp0 + a)) (buffer inp0)"
    using a0 p by (simp add: nat_add_distrib add.commute)
  finally have "unread inp0 = chunk @ unread inp1"
    by (simp add: ch i1 unread_def a_def)
  moreover have "wfInput inp1" using p a0 af by (simp add: wfInput_def i1 a_def [symmetric])
  moreover have "readMore inp1 = readMore inp0" by (simp add: i1)
  ultimately show ?thesis using w0 len an by (simp add: pending_def)
qed

lemma ensureSize_pending:
  "wfInput inp \<Longrightarrow> ensureSize bytes inp = Inr inp1 \<Longrightarrow>
     wfInput inp1 \<and> pending inp1 = pending inp \<and> position inp1 + bytes \<le> filled inp1"
proof (induction bytes inp rule: ensureSize.induct)
  case (1 bytes inp)
  show ?case
  proof (cases "position inp + bytes > filled inp")
    case False
    with "1.prems" show ?thesis by (simp add: ensureSize.simps [of bytes inp])
  next
    case True
    with "1.prems"(2) obtain added inp0 where r: "refillSome inp = Inr (added, inp0)"
      and nz: "added \<noteq> 0" and rec: "ensureSize bytes inp0 = Inr inp1"
      by (auto simp: ensureSize.simps [of bytes inp] split: sum.splits if_splits)
    from refillSome_pending [OF "1.prems"(1) r] have w: "wfInput inp0" and p: "pending inp0 = pending inp"
      by simp_all
    from "1.IH" [OF True r refl nz w rec] p show ?thesis by simp
  qed
qed

lemma ensureSize_error:
  "ensureSize bytes inp = Inl e \<Longrightarrow> e = UnexpectedEndOfStream \<or> e = TruncatedInput \<or> e = UndefinedBehaviour"
proof (induction bytes inp rule: ensureSize.induct)
  case (1 bytes inp)
  show ?case
  proof (cases "position inp + bytes > filled inp")
    case False
    with "1.prems" show ?thesis by (simp add: ensureSize.simps [of bytes inp])
  next
    case True
    show ?thesis
    proof (cases "refillSome inp")
      case (Inl e')
      with True "1.prems" have "e = e'" by (simp add: ensureSize.simps [of bytes inp])
      with refillSome_error [OF Inl] show ?thesis by (simp add: inputError_def)
    next
      case (Inr a)
      obtain added inp0 where a: "a = (added, inp0)" by (cases a)
      show ?thesis
      proof (cases "added = 0")
        case True
        with \<open>position inp + bytes > filled inp\<close> "1.prems" Inr a show ?thesis
          by (simp add: ensureSize.simps [of bytes inp])
      next
        case False
        with \<open>position inp + bytes > filled inp\<close> "1.prems" Inr a
        have "ensureSize bytes inp0 = Inl e" by (simp add: ensureSize.simps [of bytes inp])
        from "1.IH" [OF \<open>position inp + bytes > filled inp\<close> Inr [unfolded a] refl False this]
        show ?thesis .
      qed
    qed
  qed
qed

lemma getInteger_pending:
  assumes "wfInput inp" and "getInteger bytes inp = Inr (v, inp1)"
  shows "wfInput inp1 \<and> 0 \<le> bytes \<and> nat bytes \<le> length (pending inp)
         \<and> v = littleEndian (take (nat bytes) (pending inp))
         \<and> pending inp1 = drop (nat bytes) (pending inp)"
proof -
  from assms(2) obtain inp0 bs where e: "ensureSize bytes inp = Inr inp0"
    and s: "spanAt (buffer inp0) (position inp0) bytes = Inr bs"
    and v: "v = littleEndian bs" and i1: "inp1 = inp0\<lparr>position := position inp0 + bytes\<rparr>"
    by (auto simp: getInteger_def split: sum.splits)
  from ensureSize_pending [OF assms(1) e] have w0: "wfInput inp0" and p0: "pending inp0 = pending inp"
    and en: "position inp0 + bytes \<le> filled inp0" by simp_all
  from s have b0: "0 \<le> bytes" and bs: "bs = take (nat bytes) (drop (nat (position inp0)) (buffer inp0))"
    by (auto simp: spanAt_Inr)
  from w0 have p: "0 \<le> position inp0" "position inp0 \<le> filled inp0"
    "filled inp0 \<le> int (length (buffer inp0))" by (auto simp: wfInput_def)
  have lu: "length (unread inp0) = nat (filled inp0 - position inp0)"
    using p unfolding unread_def by simp
  have t: "take (nat bytes) (unread inp0) = bs"
    using b0 en by (simp add: unread_def bs min_def)
  have d: "drop (nat bytes) (unread inp0) = unread inp1"
    using b0 en p by (simp add: unread_def i1 drop_take nat_add_distrib add.commute nat_diff_distrib)
  have le: "nat bytes \<le> length (unread inp0)" using lu b0 en by simp
  from t le have "take (nat bytes) (pending inp0) = bs" by (simp add: pending_def)
  moreover from d le have "drop (nat bytes) (pending inp0) = pending inp1"
    by (simp add: pending_def i1)
  moreover have "wfInput inp1" using p b0 en by (simp add: wfInput_def i1)
  moreover from le have "nat bytes \<le> length (pending inp0)" by (simp add: pending_def)
  ultimately show ?thesis using p0 v b0 by simp
qed

lemma getInteger_error:
  "getInteger bytes inp = Inl e \<Longrightarrow> e = UnexpectedEndOfStream \<or> e = TruncatedInput \<or> e = UndefinedBehaviour"
  by (auto simp: getInteger_def split: sum.splits dest: ensureSize_error spanAt_error)

text \<open>One table entry is enough for a step of \<open>LightCrc32\<close>.\<close>

lemma lightCrc32Step_entry [code]:
  "lightCrc32Step state it =
     drop_bit 8 state XOR crcTableEntry (unat (ucast (state XOR ucast it) :: byte))"
proof -
  have "unat (ucast (state XOR ucast it) :: byte) < 256"
    using unsigned_less [of "ucast (state XOR ucast it) :: byte", where ?'a = nat] by simp
  then show ?thesis
    by (simp add: lightCrc32Step_def basicCrc32LookupTable_def Let_def)
qed

text \<open>
  \<open>IGzFile::onFinish\<close> reads one 32-bit little-endian integer, the CRC-32 field, whatever
  \<open>verifyChecksum\<close> is; the value is compared with the digest of the checksum only when
  \<open>verifyChecksum\<close> holds, and only then can the call fail with a CRC mismatch. On a
  well-formed input the integer is made of the next 4 bytes still to be read, and exactly these
  4 bytes are taken: what follows them, the ISIZE field, is still to be read afterwards, and
  nothing but the input of the reader has changed. \<open>readSome\<close> calls \<open>onFinish\<close> once, when
  \<open>parseSome\<close> reports the end, and marks the archive done; a done archive returns nothing and
  reads nothing.
\<close>

lemma onFinishGz_trailer:
  "onFinishGz S d =
     (case getInteger 4 (dInput d) of
        Inl e \<Rightarrow> Inl e
      | Inr (expectedCrc, inp) \<Rightarrow>
          if verifyChecksum S \<and> expectedCrc \<noteq> checksumDigest S (checksum (dOutput d))
          then Inl GzipCrcMismatch else Inr (d\<lparr>dInput := inp\<rparr>))
   \<and> (\<not> verifyChecksum S \<longrightarrow> onFinishGz S d \<noteq> Inl GzipCrcMismatch)
   \<and> (wfInput (dInput d) \<and> getInteger 4 (dInput d) = Inr (expectedCrc, inp) \<longrightarrow>
        4 \<le> length (pending (dInput d))
        \<and> expectedCrc = littleEndian (take 4 (pending (dInput d)))
        \<and> pending inp = drop 4 (pending (dInput d)) \<and> wfInput inp)
   \<and> (wfInput (dInput d) \<and> onFinishGz S d = Inr d1 \<longrightarrow>
        d1 = d\<lparr>dInput := dInput d1\<rparr>
        \<and> pending (dInput d1) = drop 4 (pending (dInput d)) \<and> wfInput (dInput d1))
   \<and> (\<not> archiveDone a \<and> parseSome (deflateReader a) = Some (Inr (False, d0))
        \<and> consume S bytesToKeep (dOutput d0) = Inr (batch, out1)
        \<and> onFinishGz S (d0\<lparr>dOutput := out1\<rparr>) = Inr d1 \<longrightarrow>
        readSome S (onFinishGz S) bytesToKeep a
          = Some (Inr (Some batch, a\<lparr>deflateReader := d1, archiveDone := True\<rparr>)))
   \<and> (archiveDone a \<longrightarrow> readSome S (onFinishGz S) bytesToKeep a = Some (Inr (None, a)))"
proof (intro conjI impI)
  show "onFinishGz S d =
     (case getInteger 4 (dInput d) of
        Inl e \<Rightarrow> Inl e
      | Inr (expectedCrc, inp) \<Rightarrow>
          if verifyChecksum S \<and> expectedCrc \<noteq> checksumDigest S (checksum (dOutput d))
          then Inl GzipCrcMismatch else Inr (d\<lparr>dInput := inp\<rparr>))"
    by (simp add: onFinishGz_def Let_def split: sum.splits)
next
  assume "\<not> verifyChecksum S"
  then show "onFinishGz S d \<noteq> Inl GzipCrcMismatch"
    by (auto simp: onFinishGz_def split: sum.splits dest: getInteger_error)
next
  assume a: "wfInput (dInput d) \<and> getInteger 4 (dInput d) = Inr (expectedCrc, inp)"
  then have g: "getInteger 4 (dInput d) = Inr (expectedCrc, inp)" and w: "wfInput (dInput d)"
    by simp_all
  from getInteger_pending [OF w g]
  show "4 \<le> length (pending (dInput d))"
    and "expectedCrc = littleEndian (take 4 (pending (dInput d)))"
    and "pending inp = drop 4 (pending (dInput d))" and "wfInput inp"
    by simp_all
next
  assume a: "wfInput (dInput d) \<and> onFinishGz S d = Inr d1"
  then obtain crc inp where g: "getInteger 4 (dInput d) = Inr (crc, inp)"
    and d1: "d1 = d\<lparr>dInput := inp\<rparr>"
    by (auto simp: onFinishGz_def Let_def split: sum.splits if_splits)
  from a have w: "wfInput (dInput d)" by simp
  from d1 show "d1 = d\<lparr>dInput := dInput d1\<rparr>" by simp
  from getInteger_pending [OF w g] d1
  show "pending (dInput d1) = drop 4 (pending (dInput d))" and "wfInput (dInput d1)"
    by simp_all
next
  assume "\<not> archiveDone a \<and> parseSome (deflateReader a) = Some (Inr (False, d0))
        \<and> consume S bytesToKeep (dOutput d0) = Inr (batch, out1)
        \<and> onFinishGz S (d0\<lparr>dOutput := out1\<rparr>) = Inr d1"
  then show "readSome S (onFinishGz S) bytesToKeep a
          = Some (Inr (Some batch, a\<lparr>deflateReader := d1, archiveDone := True\<rparr>))"
    by (simp add: readSome_def Let_def)
next
  assume "archiveDone a"
  then show "readSome S (onFinishGz S) bytesToKeep a = Some (Inr (None, a))"
    by (simp add: readSome_def)
qed

text \<open>The member of the text "a": the 8 bytes of the trailer are still to be read when the
  block ends, the 4 bytes of ISIZE after \<open>onFinish\<close>, with and without the verification; a
  wrong checksum is reported only with the verification.\<close>

lemma onFinishGz_trailer_example:
  "parseSome (deflateReader gzipArchive) = Some (Inr (False, gzipReader 3 0 0xffffffff))
   \<and> pending (dInput (gzipReader 3 1 0x174841BC)) = [0x43, 0xBE, 0xB7, 0xE8, 1, 0, 0, 0]
   \<and> onFinishGz crcSettings (gzipReader 3 1 0x174841BC) = Inr (gzipReader 7 1 0x174841BC)
   \<and> onFinishGz looseSettings (gzipReader 3 1 0) = Inr (gzipReader 7 1 0)
   \<and> onFinishGz crcSettings (gzipReader 3 1 0) = Inl GzipCrcMismatch
   \<and> pending (dInput (gzipReader 7 1 0x174841BC)) = [1, 0, 0, 0]
   \<and> pending (dInput (gzipReader 7 1 0)) = [1, 0, 0, 0]
   \<and> readSome crcSettings (onFinishGz crcSettings) 0 gzipArchive
        = Some (Inr (Some [97], gzipArchive\<lparr>deflateReader := gzipReader 7 1 0x174841BC,
                                               archiveDone := True\<rparr>))
   \<and> readSome crcSettings (onFinishGz crcSettings) 0
        (gzipArchive\<lparr>deflateReader := gzipReader 7 1 0x174841BC, archiveDone := True\<rparr>)
        = Some (Inr (None, gzipArchive\<lparr>deflateReader := gzipReader 7 1 0x174841BC,
                                         archiveDone := True\<rparr>))"
proof -
  have p: "parseSome (deflateReader gzipArchive) = Some (Inr (False, gzipReader 3 0 0xffffffff))"
    by code_simp
  have c: "consume crcSettings 0 (dOutput (gzipReader 3 0 0xffffffff))
             = Inr ([97], gzipOutput 1 0x174841BC)"
    by code_simp
  have u: "(gzipReader 3 0 0xffffffff)\<lparr>dOutput := gzipOutput 1 0x174841BC\<rparr>
             = gzipReader 3 1 0x174841BC"
    by (simp add: gzipReader_def)
  have w: "wfInput (dInput (gzipReader 3 1 crc))" for crc
    by (simp add: gzipReader_def gzipInputAt_def wfInput_def gzipMemberA_def)
  have n: "\<not> archiveDone gzipArchive" by code_simp
  have before: "pending (dInput (gzipReader 3 1 0x174841BC)) = [0x43, 0xBE, 0xB7, 0xE8, 1, 0, 0, 0]"
    by code_simp
  have before0: "pending (dInput (gzipReader 3 1 0)) = [0x43, 0xBE, 0xB7, 0xE8, 1, 0, 0, 0]"
    by code_simp
  have g: "getInteger 4 (dInput (gzipReader 3 1 crc)) = Inr (0xE8B7BE43, gzipInputAt 7)" for crc
    by (simp add: gzipReader_def) code_simp
  have digest: "checksumDigest crcSettings (checksum (dOutput (gzipReader 3 1 0x174841BC))) = 0xE8B7BE43"
    by code_simp
  have digest0: "checksumDigest crcSettings (checksum (dOutput (gzipReader 3 1 0))) \<noteq> 0xE8B7BE43"
    by code_simp
  have v: "verifyChecksum crcSettings" "\<not> verifyChecksum looseSettings" by code_simp+
  have i: "(gzipReader 3 1 crc)\<lparr>dInput := gzipInputAt 7\<rparr> = gzipReader 7 1 crc" for crc
    by (simp add: gzipReader_def)
  have f1: "onFinishGz crcSettings (gzipReader 3 1 0x174841BC) = Inr (gzipReader 7 1 0x174841BC)"
    using onFinishGz_trailer [of crcSettings "gzipReader 3 1 0x174841BC", THEN conjunct1]
    by (simp add: g digest i)
  have f2: "onFinishGz looseSettings (gzipReader 3 1 0) = Inr (gzipReader 7 1 0)"
    using onFinishGz_trailer [of looseSettings "gzipReader 3 1 0", THEN conjunct1]
    by (simp add: g v i)
  have f3: "onFinishGz crcSettings (gzipReader 3 1 0) = Inl GzipCrcMismatch"
    using onFinishGz_trailer [of crcSettings "gzipReader 3 1 0", THEN conjunct1] digest0
    by (simp add: g v)
  have a1: "pending (dInput (gzipReader 7 1 0x174841BC)) = [1, 0, 0, 0]"
    using onFinishGz_trailer [of crcSettings "gzipReader 3 1 0x174841BC" _ _ "gzipReader 7 1 0x174841BC",
        THEN conjunct2, THEN conjunct2, THEN conjunct2, THEN conjunct1] w f1
    by (simp add: before)
  have a2: "pending (dInput (gzipReader 7 1 0)) = [1, 0, 0, 0]"
    using onFinishGz_trailer [of looseSettings "gzipReader 3 1 0" _ _ "gzipReader 7 1 0",
        THEN conjunct2, THEN conjunct2, THEN conjunct2, THEN conjunct1] w f2
    by (simp add: before0)
  have r1: "readSome crcSettings (onFinishGz crcSettings) 0 gzipArchive
        = Some (Inr (Some [97], gzipArchive\<lparr>deflateReader := gzipReader 7 1 0x174841BC,
                                               archiveDone := True\<rparr>))"
    using onFinishGz_trailer [of crcSettings _ _ _ "gzipReader 7 1 0x174841BC" gzipArchive
        "gzipReader 3 0 0xffffffff" 0 "[97]" "gzipOutput 1 0x174841BC",
        THEN conjunct2, THEN conjunct2, THEN conjunct2, THEN conjunct2, THEN conjunct1]
      n p c f1
    by (simp add: u)
  have r2: "readSome crcSettings (onFinishGz crcSettings) 0
        (gzipArchive\<lparr>deflateReader := gzipReader 7 1 0x174841BC, archiveDone := True\<rparr>)
        = Some (Inr (None, gzipArchive\<lparr>deflateReader := gzipReader 7 1 0x174841BC,
                                         archiveDone := True\<rparr>))"
    using onFinishGz_trailer [where S = crcSettings and bytesToKeep = 0
        and a = "gzipArchive\<lparr>deflateReader := gzipReader 7 1 0x174841BC, archiveDone := True\<rparr>",
        THEN conjunct2, THEN conjunct2, THEN conjunct2, THEN conjunct2, THEN conjunct2]
    by simp
  from p before f1 f2 f3 a1 a2 r1 r2 show ?thesis by blast
qed

text \<open>
  Claim C10 does not hold of the program: the input on which \<open>onFinish\<close> is called need not
  be well formed.  The destructor of the \<open>BitReader\<close> gives back the whole bytes left in its
  register with \<open>returnBytes(bitsLeft >> 3)\<close>, up to 7 of them, while the last \<open>getRange\<close>
  has taken at most 6; when that last refill has moved the buffer's contents to its front
  (\<open>refillSome\<close> with the position beyond the middle), the bytes taken before it are gone
  and the position becomes negative.  In the member below (the final fixed block of 9 literals,
  the CRC-32 BC5FD307 of the text and the ISIZE 9, behind the header) the third refill finds 15
  bits in the register and compacts the buffer of 16 bytes; the end-of-block code leaves 56 bits,
  7 bytes are given back after a read of 6, and the position is -1: the first byte of the CRC-32
  is no longer in the buffer.  \<open>onFinish\<close> then reads 4 bytes from one byte before the buffer,
  with and without the verification; the model has no value for that read.  With an input
  buffer of 28 bytes, which is never compacted, the same member is read as the claim says.
\<close>

theorem C10_trailer_after_compaction:
  "(case parseSome (deflateReader (newIDeflateArchive crcSettings (ArchiveSpan gzipMemberB))) of
      Some (Inr (yielded, d)) \<Rightarrow>
        \<not> yielded \<and> emitted (dOutput d) = gzipTextB \<and> position (dInput d) = - 1
        \<and> filled (dInput d) = 7 \<and> take 7 (buffer (dInput d)) = drop 12 gzipMemberB
    | _ \<Rightarrow> False)
   \<and> readSome crcSettings (onFinishGz crcSettings) 0
        (newIDeflateArchive crcSettings (ArchiveSpan gzipMemberB)) = Some (Inl UndefinedBehaviour)
   \<and> readSome looseSettings (onFinishGz looseSettings) 0
        (newIDeflateArchive looseSettings (ArchiveSpan gzipMemberB)) = Some (Inl UndefinedBehaviour)
   \<and> (case readSome wideCrcSettings (onFinishGz wideCrcSettings) 0
              (newIDeflateArchive wideCrcSettings (ArchiveSpan gzipMemberB)) of
         Some (Inr (Some batch, a)) \<Rightarrow>
           batch = gzipTextB \<and> archiveDone a
           \<and> pending (dInput (deflateReader a)) = [9, 0, 0, 0]
       | _ \<Rightarrow> False)"
  by code_simp

section \<open>Stored blocks\<close>

text \<open>The two bytes of LEN are a number below 65536, of which \<open>~length & 0xffff\<close> is the
  complement to 65535.\<close>

lemma littleEndian_bound: "0 \<le> littleEndian bs \<and> littleEndian bs < 256 ^ length bs"
proof (induction bs)
  case Nil
  show ?case by simp
next
  case (Cons b bs)
  have "0 \<le> uint b" "uint b < 256" using uint_bounded [of b] by simp_all
  with Cons show ?case by simp
qed

lemma not_and_16: "0 \<le> len \<Longrightarrow> len < 65536 \<Longrightarrow> (NOT len AND 0xffff) = 65535 - (len :: int)"
proof -
  assume a: "0 \<le> len" "len < 65536"
  have "(NOT len AND 0xffff) = take_bit 16 (NOT len)"
    by (simp add: take_bit_eq_mask mask_eq_exp_minus_1)
  also have "\<dots> = (- len - 1) mod 65536" by (simp add: take_bit_eq_mod not_int_def)
  also have "\<dots> = 65535 - len" using a
    by (smt (verit) mod_add_self2 mod_pos_pos_trivial)
  finally show ?thesis .
qed

lemma addBytes_emitted:
  assumes "addBytes chunk out = Inr out1"
  shows "emitted out1 = emitted out @ chunk \<and> appended out out1 = chunk
         \<and> out1 = out\<lparr>outBuffer := outBuffer out1, used := used out + int (length chunk)\<rparr>"
proof -
  from assms obtain buf where w: "writeAt (outBuffer out) (used out) chunk = Inr buf"
    and o: "out1 = out\<lparr>outBuffer := buf, used := used out + int (length chunk)\<rparr>"
    by (auto simp: addBytes_def split: sum.splits)
  from w have u: "0 \<le> used out" and l: "used out + int (length chunk) \<le> int (length (outBuffer out))"
    and b: "buf = take (nat (used out)) (outBuffer out) @ chunk
                  @ drop (nat (used out) + length chunk) (outBuffer out)"
    by (auto simp: writeAt_Inr)
  from u l have n: "nat (used out) \<le> length (outBuffer out)" by linarith
  have e: "emitted out1 = emitted out @ chunk"
    using u n by (simp add: emitted_def o b nat_add_distrib min_def)
  have le: "length (emitted out) = nat (used out)" using n by (simp add: emitted_def)
  from e le have "appended out out1 = chunk" by (simp add: appended_def)
  with e o show ?thesis by simp
qed

lemma addBytes_error:
  "addBytes chunk out = Inl e \<Longrightarrow> e = WritingMoreThanAvailable \<or> e = UndefinedBehaviour"
  by (auto simp: addBytes_def checkSize_def split: sum.splits if_splits dest: writeAt_error)

lemma literalParseSome_step:
  assumes w: "wfInput inp" and b: "0 \<le> bytesLeft st"
    and r: "literalParseSome st inp out = Inr (yielded, st1, inp1, out1)"
  shows "appended out out1 @ pending inp1 = pending inp
         \<and> emitted out1 = emitted out @ appended out out1
         \<and> bytesLeft st1 = bytesLeft st - int (length (appended out out1))
         \<and> 0 \<le> bytesLeft st1 \<and> (\<not> yielded \<longrightarrow> bytesLeft st1 = 0) \<and> wfInput inp1
         \<and> out1 = out\<lparr>outBuffer := outBuffer out1,
                        used := used out + int (length (appended out out1))\<rparr>"
proof (cases "available out > bytesLeft st")
  case True
  with r obtain chunk where g: "getRange (bytesLeft st) inp = Inr (chunk, inp1)"
    and a: "addBytes chunk out = Inr out1"
    and s: "st1 = st\<lparr>bytesLeft := bytesLeft st - int (length chunk)\<rparr>"
    and y: "yielded = (bytesLeft st - int (length chunk) > 0)"
    by (auto simp: literalParseSome_def Let_def split: sum.splits)
  from getRange_pending [OF w g] addBytes_emitted [OF a] s y b show ?thesis by auto
next
  case False
  with r obtain chunk where g: "getRange (available out) inp = Inr (chunk, inp1)"
    and a: "addBytes chunk out = Inr out1"
    and s: "st1 = st\<lparr>bytesLeft := bytesLeft st - int (length chunk)\<rparr>"
    and y: "yielded"
    by (auto simp: literalParseSome_def Let_def split: sum.splits)
  from getRange_pending [OF w g] addBytes_emitted [OF a] s y b False show ?thesis by auto
qed

lemma literalCalls_run:
  "wfInput inp \<Longrightarrow> 0 \<le> bytesLeft st
     \<Longrightarrow> literalCalls outs st inp = Inr (bytes, yielded, st2, inp2)
     \<Longrightarrow> bytes @ pending inp2 = pending inp
         \<and> int (length bytes) = bytesLeft st - bytesLeft st2
         \<and> 0 \<le> bytesLeft st2 \<and> (\<not> yielded \<longrightarrow> bytesLeft st2 = 0) \<and> wfInput inp2"
proof (induction outs arbitrary: st inp bytes)
  case Nil
  then show ?case by simp
next
  case (Cons out outs)
  from Cons.prems(3) obtain y st1 inp1 out1
    where r: "literalParseSome st inp out = Inr (y, st1, inp1, out1)"
    by (auto split: sum.splits)
  note step = literalParseSome_step [OF Cons.prems(1,2) r]
  show ?case
  proof (cases y)
    case False
    with Cons.prems(3) r have "bytes = appended out out1" "yielded = False" "st2 = st1" "inp2 = inp1"
      by simp_all
    with step False show ?thesis by simp
  next
    case True
    with Cons.prems(3) r obtain rest where
      c: "literalCalls outs st1 inp1 = Inr (rest, yielded, st2, inp2)"
      and bs: "bytes = appended out out1 @ rest"
      by (auto split: sum.splits)
    from step have w1: "wfInput inp1" and b1: "0 \<le> bytesLeft st1" by simp_all
    from Cons.IH [OF w1 b1 c] step bs show ?thesis by auto
  qed
qed

lemma literalParseSome_error:
  "literalParseSome st inp out = Inl e \<Longrightarrow> kindOf e \<noteq> CorruptedLiteralBlock"
  by (auto simp: literalParseSome_def Let_def inputError_def split: sum.splits if_splits
      dest!: getRange_error addBytes_error)

lemma getBytes_kind:
  "getBytes n inp = Inl e \<Longrightarrow> kindOf e \<noteq> CorruptedLiteralBlock"
  by (auto simp: getBytes_def dest!: getInteger_error)

lemma newLiteralState_header:
  assumes w: "wfInput inp" and g1: "getBytes 2 inp = Inr (len, inp1)"
    and g2: "getBytes 2 inp1 = Inr (antiLength, inp2)"
  shows "len = littleEndian (take 2 (pending inp))
         \<and> antiLength = littleEndian (take 2 (drop 2 (pending inp)))
         \<and> 0 \<le> len \<and> len < 65536 \<and> (NOT len AND 0xffff) = 65535 - len
         \<and> pending inp2 = drop 4 (pending inp) \<and> wfInput inp2
         \<and> newLiteralState inp =
             (if antiLength \<noteq> 65535 - len then Inl CorruptedLiteralLength
              else Inr (\<lparr>bytesLeft = len\<rparr>, inp2))"
proof -
  from getInteger_pending [OF w g1 [unfolded getBytes_def]]
  have w1: "wfInput inp1" and l: "len = littleEndian (take 2 (pending inp))"
    and p1: "pending inp1 = drop 2 (pending inp)" by simp_all
  from getInteger_pending [OF w1 g2 [unfolded getBytes_def]] p1
  have w2: "wfInput inp2" and a: "antiLength = littleEndian (take 2 (drop 2 (pending inp)))"
    and p2: "pending inp2 = drop 4 (pending inp)" by simp_all
  have "length (take 2 (pending inp)) \<le> 2" by simp
  then have "(256 :: int) ^ length (take 2 (pending inp)) \<le> 256 ^ 2"
    by (intro power_increasing) simp_all
  with littleEndian_bound [of "take 2 (pending inp)"] l
  have b: "0 \<le> len" "len < 65536" by simp_all
  note n = not_and_16 [OF b]
  have "newLiteralState inp =
             (if antiLength \<noteq> 65535 - len then Inl CorruptedLiteralLength
              else Inr (\<lparr>bytesLeft = len\<rparr>, inp2))"
    using g1 g2 n by (simp add: newLiteralState_def)
  with l a b n p2 w2 show ?thesis by simp
qed

lemma newLiteralState_corrupted:
  "(\<exists>e. newLiteralState inp = Inl e \<and> kindOf e = CorruptedLiteralBlock)
   \<longleftrightarrow> (\<exists>len inp1 antiLength inp2. getBytes 2 inp = Inr (len, inp1)
          \<and> getBytes 2 inp1 = Inr (antiLength, inp2) \<and> antiLength \<noteq> (NOT len AND 0xffff))"
  by (auto simp: newLiteralState_def split: sum.splits if_splits dest: getBytes_kind)

lemma literalParseSome_all_buffered:
  assumes w: "wfInput inp" and b: "0 \<le> bytesLeft st" and a: "bytesLeft st < available out"
    and u: "0 \<le> used out" and f: "position inp + bytesLeft st < filled inp"
  shows "literalParseSome st inp out =
           Inr (False, st\<lparr>bytesLeft := 0\<rparr>, inp\<lparr>position := position inp + bytesLeft st\<rparr>,
                out\<lparr>outBuffer := emitted out @ take (nat (bytesLeft st)) (pending inp)
                                   @ drop (nat (used out) + nat (bytesLeft st)) (outBuffer out),
                    used := used out + bytesLeft st\<rparr>)"
proof -
  let ?n = "bytesLeft st"
  let ?chunk = "take (nat ?n) (drop (nat (position inp)) (buffer inp))"
  from w have p: "0 \<le> position inp" "position inp \<le> filled inp"
    "filled inp \<le> int (length (buffer inp))" by (auto simp: wfInput_def)
  have g: "getRange ?n inp = Inr (?chunk, inp\<lparr>position := position inp + ?n\<rparr>)"
    using p b f by (simp add: getRange_def Let_def spanAt_def min_def)
  have lc: "length ?chunk = nat ?n" using p b f by simp
  have lu: "length (unread inp) = nat (filled inp - position inp)"
    using p unfolding unread_def by simp
  have c: "?chunk = take (nat ?n) (pending inp)"
    using p b f lu by (simp add: pending_def unread_def min_def)
  have ad: "addBytes ?chunk out =
          Inr (out\<lparr>outBuffer := emitted out @ ?chunk
                                   @ drop (nat (used out) + nat ?n) (outBuffer out),
                    used := used out + ?n\<rparr>)"
    using a u b lc by (simp add: addBytes_def checkSize_def available_def writeAt_def emitted_def)
  show ?thesis
    using a g ad lc b by (simp add: literalParseSome_def Let_def c)
qed

text \<open>
  On a well-formed input \<open>LiteralState\<close> reads LEN and then NLEN as the little-endian values
  of the next two and the two following bytes; when both reads succeed it fails with the error
  of the kind CorruptedLiteralBlock if NLEN is not \<open>~LEN & 0xffff\<close>, that is 65535 - LEN, and
  otherwise starts with \<open>bytesLeft = LEN\<close> on the input behind the four bytes. No other failure of
  the constructor or of \<open>parseSome\<close> is of that kind. Each call of \<open>parseSome\<close> puts behind the
  valid bytes of the output the next bytes of the input, as many as it takes from \<open>bytesLeft\<close>,
  and it yields unless \<open>bytesLeft\<close> has reached 0. So when the calls end, after any number of
  yields and whatever the consumer has done to the output in between, what they have appended is
  exactly the LEN bytes that followed, and the input stands behind them. A call that finds the
  whole block buffered, and room for more than the block in the output, returns and ends the
  block at once.
\<close>

lemma stored_block_inside_buffer:
  "(wfInput inp \<and> getBytes 2 inp = Inr (len, afterLen) \<and> getBytes 2 afterLen = Inr (antiLength, afterAnti)
      \<longrightarrow> len = littleEndian (take 2 (pending inp))
          \<and> antiLength = littleEndian (take 2 (drop 2 (pending inp)))
          \<and> (NOT len AND 0xffff) = 65535 - len
          \<and> pending afterAnti = drop 4 (pending inp)
          \<and> newLiteralState inp =
               (if antiLength \<noteq> 65535 - len then Inl CorruptedLiteralLength
                else Inr (\<lparr>bytesLeft = len\<rparr>, afterAnti)))
   \<and> ((\<exists>e. newLiteralState inp = Inl e \<and> kindOf e = CorruptedLiteralBlock)
        \<longleftrightarrow> (\<exists>len afterLen antiLength afterAnti. getBytes 2 inp = Inr (len, afterLen)
               \<and> getBytes 2 afterLen = Inr (antiLength, afterAnti) \<and> antiLength \<noteq> (NOT len AND 0xffff)))
   \<and> (literalParseSome st inp out = Inl e \<longrightarrow> kindOf e \<noteq> CorruptedLiteralBlock)
   \<and> (wfInput inp \<and> 0 \<le> bytesLeft st
        \<and> literalParseSome st inp out = Inr (yielded, stNext, inpNext, outNext)
      \<longrightarrow> emitted outNext = emitted out @ appended out outNext
          \<and> appended out outNext @ pending inpNext = pending inp
          \<and> bytesLeft stNext = bytesLeft st - int (length (appended out outNext))
          \<and> 0 \<le> bytesLeft stNext \<and> (yielded \<or> bytesLeft stNext = 0))
   \<and> (wfInput inp \<and> 0 \<le> bytesLeft st
        \<and> literalCalls outs st inp = Inr (block, False, stEnd, inpEnd)
      \<longrightarrow> int (length block) = bytesLeft st
          \<and> block = take (nat (bytesLeft st)) (pending inp)
          \<and> pending inpEnd = drop (nat (bytesLeft st)) (pending inp)
          \<and> bytesLeft stEnd = 0)
   \<and> (wfInput inp \<and> 0 \<le> bytesLeft st \<and> bytesLeft st < available out \<and> 0 \<le> used out
        \<and> position inp + bytesLeft st < filled inp
      \<longrightarrow> literalParseSome st inp out =
            Inr (False, st\<lparr>bytesLeft := 0\<rparr>, inp\<lparr>position := position inp + bytesLeft st\<rparr>,
                 out\<lparr>outBuffer := emitted out @ take (nat (bytesLeft st)) (pending inp)
                                    @ drop (nat (used out) + nat (bytesLeft st)) (outBuffer out),
                     used := used out + bytesLeft st\<rparr>))"
proof (intro conjI impI)
  assume a: "wfInput inp \<and> getBytes 2 inp = Inr (len, afterLen) \<and> getBytes 2 afterLen = Inr (antiLength, afterAnti)"
  note h = newLiteralState_header [of inp len afterLen antiLength afterAnti]
  from a h show "len = littleEndian (take 2 (pending inp))" by blast
  from a h show "antiLength = littleEndian (take 2 (drop 2 (pending inp)))" by blast
  from a h show "(NOT len AND 0xffff) = 65535 - len" by blast
  from a h show "pending afterAnti = drop 4 (pending inp)" by blast
  from a h show "newLiteralState inp =
               (if antiLength \<noteq> 65535 - len then Inl CorruptedLiteralLength
                else Inr (\<lparr>bytesLeft = len\<rparr>, afterAnti))" by blast
next
  show "(\<exists>e. newLiteralState inp = Inl e \<and> kindOf e = CorruptedLiteralBlock)
        \<longleftrightarrow> (\<exists>len afterLen antiLength afterAnti. getBytes 2 inp = Inr (len, afterLen)
               \<and> getBytes 2 afterLen = Inr (antiLength, afterAnti) \<and> antiLength \<noteq> (NOT len AND 0xffff))"
    by (rule newLiteralState_corrupted)
next
  assume "literalParseSome st inp out = Inl e"
  then show "kindOf e \<noteq> CorruptedLiteralBlock" by (rule literalParseSome_error)
next
  assume a: "wfInput inp \<and> 0 \<le> bytesLeft st
        \<and> literalParseSome st inp out = Inr (yielded, stNext, inpNext, outNext)"
  note s = literalParseSome_step [of inp st out yielded stNext inpNext outNext]
  from a s show "emitted outNext = emitted out @ appended out outNext" by blast
  from a s show "appended out outNext @ pending inpNext = pending inp" by blast
  from a s show "bytesLeft stNext = bytesLeft st - int (length (appended out outNext))" by blast
  from a s show "0 \<le> bytesLeft stNext" by blast
  from a s show "yielded \<or> bytesLeft stNext = 0" by blast
next
  assume a: "wfInput inp \<and> 0 \<le> bytesLeft st
        \<and> literalCalls outs st inp = Inr (block, False, stEnd, inpEnd)"
  then have w: "wfInput inp" and b: "0 \<le> bytesLeft st"
    and c: "literalCalls outs st inp = Inr (block, False, stEnd, inpEnd)" by simp_all
  from literalCalls_run [OF w b c]
  have p: "block @ pending inpEnd = pending inp" and l: "int (length block) = bytesLeft st - bytesLeft stEnd"
    and z: "bytesLeft stEnd = 0" by simp_all
  from l z show "int (length block) = bytesLeft st" by simp
  then have n: "nat (bytesLeft st) = length block" by simp
  from p [symmetric] n show "block = take (nat (bytesLeft st)) (pending inp)" by simp
  from p [symmetric] n show "pending inpEnd = drop (nat (bytesLeft st)) (pending inp)" by simp
  from z show "bytesLeft stEnd = 0" .
next
  assume "wfInput inp \<and> 0 \<le> bytesLeft st \<and> bytesLeft st < available out \<and> 0 \<le> used out
        \<and> position inp + bytesLeft st < filled inp"
  then show "literalParseSome st inp out =
            Inr (False, st\<lparr>bytesLeft := 0\<rparr>, inp\<lparr>position := position inp + bytesLeft st\<rparr>,
                 out\<lparr>outBuffer := emitted out @ take (nat (bytesLeft st)) (pending inp)
                                    @ drop (nat (used out) + nat (bytesLeft st)) (outBuffer out),
                     used := used out + bytesLeft st\<rparr>)"
    using literalParseSome_all_buffered [of inp st out] by blast
qed

text \<open>The block of the bytes 1, ..., 20: LEN is 20 and NLEN 65515; with an NLEN of 65514 the
  constructor fails; the block takes three calls (16, 0 and 4 bytes), as in the run of
  \<open>readDeflateIntoVector\<close>; a block of 4 bytes takes one.\<close>

lemma stored_block_example:
  "getBytes 2 (storedInput 1) = Inr (20, storedInput 3)
   \<and> getBytes 2 (storedInput 3) = Inr (65515, storedInput 5)
   \<and> pending (storedInput 1) = [20, 0, 0xEB, 0xFF] @ map of_nat [1..<21]
   \<and> newLiteralState (storedInput 1) = Inr (\<lparr>bytesLeft = 20\<rparr>, storedInput 5)
   \<and> pending (storedInput 5) = map of_nat [1..<21]
   \<and> getBytes 2 (corruptInput 1) = Inr (20, corruptInput 3)
   \<and> getBytes 2 (corruptInput 3) = Inr (65514, corruptInput 5)
   \<and> newLiteralState (corruptInput 1) = Inl CorruptedLiteralLength
   \<and> literalCalls storedOutputs \<lparr>bytesLeft = 20\<rparr> (storedInput 5)
       = Inr (map of_nat [1..<21], False, \<lparr>bytesLeft = 0\<rparr>, storedInputEnd)
   \<and> map of_nat [1..<21] = take 20 (pending (storedInput 5))
   \<and> pending storedInputEnd = []
   \<and> literalParseSome \<lparr>bytesLeft = 4\<rparr> (storedInput 5) (newByteOutput storedSettings)
       = Inr (False, \<lparr>bytesLeft = 0\<rparr>, storedInput 9,
              (newByteOutput storedSettings)\<lparr>outBuffer := [1, 2, 3, 4] @ replicate 12 0, used := 4\<rparr>)
   \<and> readDeflateIntoVector storedSettings storedStream = Some (Inr (map of_nat [1..<21]))"
proof -
  have d: "readDeflateIntoVector storedSettings storedStream = Some (Inr (map of_nat [1..<21]))"
    by code_simp
  have w: "wfInput (storedInput 1)" "wfInput (storedInput 5)" "wfInput (corruptInput 1)"
    by code_simp+
  have g1: "getBytes 2 (storedInput 1) = Inr (20, storedInput 3)" by code_simp
  have g2: "getBytes 2 (storedInput 3) = Inr (65515, storedInput 5)" by code_simp
  have p1: "pending (storedInput 1) = [20, 0, 0xEB, 0xFF] @ map of_nat [1..<21]" by code_simp
  have p5: "pending (storedInput 5) = map of_nat [1..<21]" by code_simp
  have n1: "newLiteralState (storedInput 1) = Inr (\<lparr>bytesLeft = 20\<rparr>, storedInput 5)"
    using stored_block_inside_buffer [where inp = "storedInput 1" and len = 20 and afterLen = "storedInput 3"
        and antiLength = 65515 and afterAnti = "storedInput 5", THEN conjunct1] w g1 g2
    by simp
  have c1: "getBytes 2 (corruptInput 1) = Inr (20, corruptInput 3)" by code_simp
  have c2: "getBytes 2 (corruptInput 3) = Inr (65514, corruptInput 5)" by code_simp
  have n2: "newLiteralState (corruptInput 1) = Inl CorruptedLiteralLength"
    using stored_block_inside_buffer [where inp = "corruptInput 1" and len = 20 and afterLen = "corruptInput 3"
        and antiLength = 65514 and afterAnti = "corruptInput 5", THEN conjunct1] w c1 c2
    by simp
  have r: "literalCalls storedOutputs \<lparr>bytesLeft = 20\<rparr> (storedInput 5)
       = Inr (map of_nat [1..<21], False, \<lparr>bytesLeft = 0\<rparr>, storedInputEnd)"
    by code_simp
  have t: "map of_nat [1..<21] = take 20 (pending (storedInput 5))"
    using stored_block_inside_buffer [where inp = "storedInput 5" and st = "\<lparr>bytesLeft = 20\<rparr>"
        and outs = storedOutputs and block = "map of_nat [1..<21]" and stEnd = "\<lparr>bytesLeft = 0\<rparr>"
        and inpEnd = storedInputEnd,
        THEN conjunct2, THEN conjunct2, THEN conjunct2, THEN conjunct2, THEN conjunct1] w r
    by simp
  have e: "pending storedInputEnd = []"
    using stored_block_inside_buffer [where inp = "storedInput 5" and st = "\<lparr>bytesLeft = 20\<rparr>"
        and outs = storedOutputs and block = "map of_nat [1..<21]" and stEnd = "\<lparr>bytesLeft = 0\<rparr>"
        and inpEnd = storedInputEnd,
        THEN conjunct2, THEN conjunct2, THEN conjunct2, THEN conjunct2, THEN conjunct1] w r
    by (simp add: p5)
  have h: "0 \<le> bytesLeft \<lparr>bytesLeft = 4\<rparr>
           \<and> bytesLeft \<lparr>bytesLeft = 4\<rparr> < available (newByteOutput storedSettings)
           \<and> 0 \<le> used (newByteOutput storedSettings)
           \<and> position (storedInput 5) + bytesLeft \<lparr>bytesLeft = 4\<rparr> < filled (storedInput 5)"
    by code_simp
  have v: "(emitted (newByteOutput storedSettings)
             @ take (nat (bytesLeft \<lparr>bytesLeft = 4\<rparr>)) (pending (storedInput 5))
             @ drop (nat (used (newByteOutput storedSettings)) + nat (bytesLeft \<lparr>bytesLeft = 4\<rparr>))
                 (outBuffer (newByteOutput storedSettings))) = [1, 2, 3, 4] @ replicate 12 0"
    by code_simp
  have i: "(storedInput 5)\<lparr>position := position (storedInput 5) + bytesLeft \<lparr>bytesLeft = 4\<rparr>\<rparr>
             = storedInput 9"
    by (simp add: storedInput_def)
  have u: "used (newByteOutput storedSettings) + bytesLeft \<lparr>bytesLeft = 4\<rparr> = 4" by code_simp
  have s: "literalParseSome \<lparr>bytesLeft = 4\<rparr> (storedInput 5) (newByteOutput storedSettings)
       = Inr (False, \<lparr>bytesLeft = 0\<rparr>, storedInput 9,
              (newByteOutput storedSettings)\<lparr>outBuffer := [1, 2, 3, 4] @ replicate 12 0, used := 4\<rparr>)"
    using stored_block_inside_buffer [where inp = "storedInput 5" and st = "\<lparr>bytesLeft = 4\<rparr>"
        and out = "newByteOutput storedSettings",
        THEN conjunct2, THEN conjunct2, THEN conjunct2, THEN conjunct2, THEN conjunct2] w h
    unfolding v i u by simp
  from g1 g2 p1 n1 p5 c1 c2 n2 r t e s d show ?thesis by blast
qed

text \<open>
  Claim C7 does not hold of the program: the input on which \<open>LiteralState\<close> is constructed
  need not be well formed.  Before the constructor runs, the \<open>BitReader\<close> that has read the
  block header is destroyed and gives back the whole bytes left in its register with
  \<open>returnBytes(bitsLeft >> 3)\<close>, up to 7 of them, while its last \<open>getRange\<close> has taken at
  most 6; when that refill has moved the buffer's contents to its front, the position becomes
  negative.  The stream below is a fixed block of the 9 literals "db ebedae" followed by a final
  stored block of "hello" (LEN 5, NLEN FFFA).  With an input buffer of 16 bytes the refill at
  the header of the stored block finds 14 bits in the register and compacts the buffer; the
  header leaves 59 bits, 7 bytes are given back after a read of 6, and LEN is read at the
  position -1, one byte before the buffer, instead of from the bytes 05 00 of the stream; the
  model has no value for that read.  With an input buffer of 32 bytes, which is never
  compacted, the same stream is decoded as the claim says.
\<close>

theorem C7_stored_length_after_compaction:
  "(case startBlock (newBitReader (dInput fixedThenStoredReader)) fixedThenStoredReader of
      Inr d1 \<Rightarrow>
        (case driveState d1 of
           Some (Inr (yielded, d2, bitInput)) \<Rightarrow>
             \<not> yielded \<and> emitted (dOutput d2) = [0x64, 0x62, 0x20, 0x65, 0x62, 0x65, 0x64, 0x61, 0x65]
             \<and> (case getBits 1 bitInput of
                   Inr (lastBit, r1) \<Rightarrow>
                     (case getBits 2 r1 of
                        Inr (compressionType, r2) \<Rightarrow>
                          groupData compressionType = 0
                          \<and> position (destroyBitReader r2) = - 1
                          \<and> take 8 (buffer (destroyBitReader r2)) = drop 12 fixedThenStored
                          \<and> newLiteralState (destroyBitReader r2) = Inl UndefinedBehaviour
                      | _ \<Rightarrow> False)
                 | _ \<Rightarrow> False)
         | _ \<Rightarrow> False)
    | _ \<Rightarrow> False)
   \<and> readDeflateIntoVector compactingSettings fixedThenStored = Some (Inl UndefinedBehaviour)
   \<and> readDeflateIntoVector storedSettings fixedThenStored
       = Some (Inr [0x64, 0x62, 0x20, 0x65, 0x62, 0x65, 0x64, 0x61, 0x65,
                    0x68, 0x65, 0x6C, 0x6C, 0x6F])"
  by code_simp

section \<open>Reading by lines\<close>

lemma splitFrom_nonempty: "splitFrom separator cur xs \<noteq> []"
  by (induction xs arbitrary: cur) auto

lemma splitFrom_snoc:
  "splitFrom separator cur (xs @ [x]) =
     (if x = separator then splitFrom separator cur xs @ [[]]
      else butlast (splitFrom separator cur xs) @ [last (splitFrom separator cur xs) @ [x]])"
proof (induction xs arbitrary: cur)
  case Nil
  show ?case by simp
next
  case (Cons y ys)
  show ?case using Cons.IH [of "[]"] Cons.IH [of "cur @ [y]"] splitFrom_nonempty [of separator "[]" ys]
    by (auto simp: butlast_append)
qed

lemma splitFrom_length:
  "length (splitFrom separator cur xs) = count_list xs separator + 1"
  by (induction xs arbitrary: cur) auto

lemma splitFrom_join:
  "joinPayloads separator (splitFrom separator cur xs) = cur @ xs"
proof (induction xs arbitrary: cur)
  case Nil
  show ?case by simp
next
  case (Cons y ys)
  obtain p ps where s: "splitFrom separator [] ys = p # ps"
    using splitFrom_nonempty [of separator "[]" ys] by (cases "splitFrom separator [] ys") auto
  show ?case using Cons.IH [of "[]"] Cons.IH [of "cur @ [y]"] s by auto
qed

lemma splitFrom_last:
  "last (splitFrom separator cur xs) = [] \<longleftrightarrow> (if xs = [] then cur = [] else last xs = separator)"
proof (induction xs rule: rev_induct)
  case Nil
  show ?case by simp
next
  case (snoc x xs)
  show ?case by (simp add: splitFrom_snoc)
qed

lemma splitFrom_no_separator:
  "p \<in> set (splitFrom separator cur xs) \<Longrightarrow> separator \<notin> set cur \<Longrightarrow> separator \<notin> set p"
proof (induction xs arbitrary: cur)
  case Nil
  then show ?case by simp
next
  case (Cons x xs)
  show ?case
  proof (cases "x = separator")
    case True
    with Cons.prems have "p = cur \<or> p \<in> set (splitFrom separator [] xs)" by simp
    then show ?thesis using Cons.IH [of "[]"] Cons.prems by auto
  next
    case False
    with Cons.prems have "p \<in> set (splitFrom separator (cur @ [x]) xs)" by simp
    with Cons.IH [of "cur @ [x]"] Cons.prems False show ?thesis by simp
  qed
qed

lemma scanBatch_prefix:
  "n \<le> length batch \<Longrightarrow>
     (case fold (lineStep batch separator) [0..<n] (0, False, []) of
        (start, wasSeparator, calls) \<Rightarrow>
          calls = butlast (splitFrom separator [] (take n batch))
          \<and> (0 < n \<longrightarrow> start < n) \<and> (n = 0 \<longrightarrow> start = 0)
          \<and> (wasSeparator \<longrightarrow> last (splitFrom separator [] (take n batch)) = [] \<and> 0 < n)
          \<and> (\<not> wasSeparator \<longrightarrow>
                last (splitFrom separator [] (take n batch)) = take (n - start) (drop start batch)))"
proof (induction n)
  case 0
  show ?case by simp
next
  case (Suc n)
  let ?pieces = "splitFrom separator [] (take n batch)"
  obtain start w calls where f: "fold (lineStep batch separator) [0..<n] (0, False, []) = (start, w, calls)"
    by (cases "fold (lineStep batch separator) [0..<n] (0, False, [])") auto
  from Suc.prems have n: "n < length batch" by simp
  from Suc.IH f n have c: "calls = butlast ?pieces"
    and s: "0 < n \<longrightarrow> start < n" and s0: "n = 0 \<longrightarrow> start = 0"
    and w1: "w \<longrightarrow> last ?pieces = [] \<and> 0 < n"
    and w2: "\<not> w \<longrightarrow> last ?pieces = take (n - start) (drop start batch)"
    by simp_all
  have t: "take (Suc n) batch = take n batch @ [batch ! n]"
    using n by (simp add: take_Suc_conv_app_nth)
  have ne: "?pieces \<noteq> []" by (rule splitFrom_nonempty)
  have sn: "start \<le> n" using s s0 by (cases n) auto
  let ?start1 = "if w then n else start"
  have cur: "take (n - ?start1) (drop ?start1 batch) = last ?pieces"
    using w1 w2 by simp
  have step: "fold (lineStep batch separator) [0..<Suc n] (0, False, [])
                = lineStep batch separator n (start, w, calls)"
    by (simp add: f)
  show ?case
  proof (cases "batch ! n = separator")
    case True
    then have r: "lineStep batch separator n (start, w, calls)
                    = (?start1, True, calls @ [last ?pieces])"
      using cur by (simp add: lineStep_def Let_def)
    have p: "splitFrom separator [] (take (Suc n) batch) = ?pieces @ [[]]"
      using True by (simp add: t splitFrom_snoc)
    have "calls @ [last ?pieces] = ?pieces" using c ne by simp
    moreover have "fold (lineStep batch separator) [0..<Suc n] (0, False, [])
                     = (?start1, True, calls @ [last ?pieces])"
      by (simp only: step r)
    ultimately show ?thesis using sn by (simp add: p)
  next
    case False
    then have r: "lineStep batch separator n (start, w, calls) = (?start1, False, calls)"
      by (simp add: lineStep_def Let_def)
    have p: "splitFrom separator [] (take (Suc n) batch)
               = butlast ?pieces @ [last ?pieces @ [batch ! n]]"
      using False by (simp add: t splitFrom_snoc)
    have l: "last ?pieces @ [batch ! n] = take (Suc n - ?start1) (drop ?start1 batch)"
    proof (cases w)
      case True
      with w1 n show ?thesis by (simp add: take_Suc_conv_app_nth)
    next
      case False
      with w2 have "last ?pieces = take (n - start) (drop start batch)" by simp
      moreover have "take (Suc (n - start)) (drop start batch)
                       = take (n - start) (drop start batch) @ [drop start batch ! (n - start)]"
        using n sn by (intro take_Suc_conv_app_nth) simp
      moreover have "drop start batch ! (n - start) = batch ! n" using n sn by simp
      moreover have "Suc n - start = Suc (n - start)" using sn by simp
      ultimately show ?thesis using False by simp
    qed
    have st: "fold (lineStep batch separator) [0..<Suc n] (0, False, []) = (?start1, False, calls)"
      by (simp only: step r)
    show ?thesis unfolding st p using sn c l by simp
  qed
qed

lemma scanBatch_whole:
  assumes "scanBatch batch separator False [] = (start, wasSeparator, calls)"
  shows "finishLines (int (length batch) - int start) batch wasSeparator calls = linesOf separator batch"
proof (cases "batch = []")
  case True
  with assms show ?thesis by (simp add: scanBatch_def finishLines_def linesOf_def)
next
  case False
  let ?pieces = "splitFrom separator [] batch"
  from scanBatch_prefix [of "length batch" batch separator] assms
  have c: "calls = butlast ?pieces" and s: "start < length batch"
    and w1: "wasSeparator \<longrightarrow> last ?pieces = []"
    and w2: "\<not> wasSeparator \<longrightarrow> last ?pieces = drop start batch"
    using False by (simp_all add: scanBatch_def)
  have ne: "?pieces \<noteq> []" by (rule splitFrom_nonempty)
  have k: "int (length batch) - int start > 0" using s by simp
  have d: "length batch - nat (int (length batch) - int start) = start" using s by simp
  have "finishLines (int (length batch) - int start) batch wasSeparator calls
          = butlast ?pieces @ [last ?pieces]"
    using k w1 w2 c d by (simp add: finishLines_def)
  with ne False show ?thesis by (simp add: linesOf_def)
qed

lemma readByLines_one_batch:
  assumes first: "readSomeOf 0 a = Some (Inr (Some whole, a1))"
    and rest: "\<And>k. readSomeOf k a1 = Some (Inr (None, a2))"
  shows "readByLines readSomeOf separator a = Some (Inr (linesOf separator whole, a2))"
proof -
  obtain start w calls where sc: "scanBatch whole separator False [] = (start, w, calls)"
    by (cases "scanBatch whole separator False []") auto
  have "readByLines readSomeOf separator a
          = readLinesLoop readSomeOf separator (int (length whole) - int start) whole w calls a1"
    unfolding readByLines_def
    by (subst readLinesLoop.simps) (simp add: first sc)
  also have "\<dots> = Some (Inr (finishLines (int (length whole) - int start) whole w calls, a2))"
    by (subst readLinesLoop.simps) (simp add: rest)
  finally show ?thesis using scanBatch_whole [OF sc] by simp
qed

text \<open>
  Claim C3, as amended.  When \<open>readSome\<close> delivers the whole decompressed text in one batch
  (the archive is done after it), \<open>readByLines\<close> returns, and it has called the reader with
  the parts into which the separators divide the text, in order: not at all for the empty text,
  and otherwise once more than there are separators, the last time with what follows the last
  separator, which is empty exactly when the text ends with the separator.  No payload contains
  the separator, and the payloads joined with the separator between them are the text.
\<close>

theorem C3_lines_of_one_batch:
  "(readSome S onFinish 0 a = Some (Inr (Some whole, a1)) \<and> archiveDone a1
      \<longrightarrow> readByLines (readSome S onFinish) separator a = Some (Inr (linesOf separator whole, a1)))
   \<and> linesOf separator [] = []
   \<and> (whole \<noteq> [] \<longrightarrow> length (linesOf separator whole) = count_list whole separator + 1)
   \<and> (whole \<noteq> [] \<longrightarrow> (last (linesOf separator whole) = [] \<longleftrightarrow> last whole = separator))
   \<and> (\<forall>p \<in> set (linesOf separator whole). separator \<notin> set p)
   \<and> joinPayloads separator (linesOf separator whole) = whole"
proof (intro conjI impI ballI)
  assume a: "readSome S onFinish 0 a = Some (Inr (Some whole, a1)) \<and> archiveDone a1"
  then have "\<And>k. readSome S onFinish k a1 = Some (Inr (None, a1))"
    by (simp add: readSome_def)
  with a show "readByLines (readSome S onFinish) separator a = Some (Inr (linesOf separator whole, a1))"
    by (intro readByLines_one_batch) simp_all
next
  show "linesOf separator [] = []" by (simp add: linesOf_def)
next
  assume "whole \<noteq> []"
  then show "length (linesOf separator whole) = count_list whole separator + 1"
    by (simp add: linesOf_def splitFrom_length)
next
  assume "whole \<noteq> []"
  then show "last (linesOf separator whole) = [] \<longleftrightarrow> last whole = separator"
    by (simp add: linesOf_def splitFrom_last)
next
  fix p assume "p \<in> set (linesOf separator whole)"
  then show "separator \<notin> set p"
    using splitFrom_no_separator [of p separator "[]" whole] by (simp add: linesOf_def split: if_splits)
next
  show "joinPayloads separator (linesOf separator whole) = whole"
    by (simp add: linesOf_def splitFrom_join)
qed

text \<open>The theorem at the text "ab", two separators, "cd": three invocations, the second with
  an empty span.\<close>

theorem C3_lines_of_one_batch_witness:
  "readSome smallSettings onFinishDeflate 0 linesArchive
     = Some (Inr (Some [97, 98, 10, 10, 99, 100], linesArchiveDone))
   \<and> archiveDone linesArchiveDone
   \<and> readByLines (readSome smallSettings onFinishDeflate) 10 linesArchive
       = Some (Inr ([[97, 98], [], [99, 100]], linesArchiveDone))
   \<and> length [[97, 98], [], [99 :: byte, 100]] = count_list [97, 98, 10, 10, 99, 100] (10 :: byte) + 1
   \<and> joinPayloads 10 [[97, 98], [], [99, 100]] = [97, 98, 10, 10, 99, 100]
   \<and> (10 :: byte) \<notin> set [97, 98]"
proof -
  have l: "linesOf 10 [97, 98, 10, 10, 99, 100] = [[97, 98], [], [99, 100]]" by code_simp
  have h1: "readSome smallSettings onFinishDeflate 0 linesArchive
     = Some (Inr (Some [97, 98, 10, 10, 99, 100], linesArchiveDone))"
    by code_simp
  have h2: "archiveDone linesArchiveDone" by code_simp
  have ne: "[97, 98, 10, 10, 99, 100 :: byte] \<noteq> []" by simp
  note t = C3_lines_of_one_batch [where S = smallSettings and onFinish = onFinishDeflate
      and a = linesArchive and whole = "[97, 98, 10, 10, 99, 100]" and ?a1.0 = linesArchiveDone
      and separator = 10]
  have c1: "readByLines (readSome smallSettings onFinishDeflate) 10 linesArchive
       = Some (Inr ([[97, 98], [], [99, 100]], linesArchiveDone))"
    using t [THEN conjunct1] h1 h2 by (simp add: l)
  have c2: "length [[97, 98], [], [99 :: byte, 100]]
              = count_list [97, 98, 10, 10, 99, 100] (10 :: byte) + 1"
    using t [THEN conjunct2, THEN conjunct2, THEN conjunct1] ne unfolding l by blast
  have c3: "joinPayloads 10 [[97, 98], [], [99, 100]] = [97, 98, 10, 10, 99, 100]"
    using t [THEN conjunct2, THEN conjunct2, THEN conjunct2, THEN conjunct2, THEN conjunct2]
    unfolding l .
  have c4: "(10 :: byte) \<notin> set [97, 98]"
    using t [THEN conjunct2, THEN conjunct2, THEN conjunct2, THEN conjunct2, THEN conjunct1]
    unfolding l by simp
  show ?thesis using h1 h2 c1 c2 c3 c4 by blast
qed

text \<open>The claim as written fails for the text "a" followed by the separator: it has one
  separator and ends with it, so the claim has one invocation; the reader is called twice, the
  second time with an empty span (the branch \<open>if (wasSeparator)\<close> after the loop).\<close>

theorem C3_trailing_call_counterexample:
  "readDeflateIntoVector smallSettings [0x4B, 0xE4, 0x02, 0x00] = Some (Inr [97, 10])
   \<and> count_list [97, 10] (10 :: byte) = 1 \<and> last [97, 10] = (10 :: byte)
   \<and> (case readByLines (readSome smallSettings onFinishDeflate) 10
              (newIDeflateArchive smallSettings (VectorSpan [0x4B, 0xE4, 0x02, 0x00])) of
         Some (Inr (calls, a)) \<Rightarrow> calls = [[97], []] \<and> length calls = 2
       | _ \<Rightarrow> False)"
  by code_simp

text \<open>A text that comes in several batches: \<open>start\<close> is set to the beginning of each batch,
  and the bytes kept from the batches before are not part of the span handed to the reader.  Of
  the text 1, ..., 20 with the separator 20, which comes in batches of 16, 0 and 4 bytes, the
  reader gets 17, 18, 19 and an empty span.\<close>

lemma readByLines_across_batches:
  "readDeflateIntoVector storedSettings storedStream = Some (Inr (map of_nat [1..<21]))
   \<and> (case readByLines (readSome storedSettings onFinishDeflate) 20
              (newIDeflateArchive storedSettings (VectorSpan storedStream)) of
         Some (Inr (calls, a)) \<Rightarrow> calls = [[17, 18, 19], []]
       | _ \<Rightarrow> False)"
  by code_simp

section \<open>The spans returned by consume\<close>

lemma lzExtend_add: "lzExtend xs d (a + b) = lzExtend (lzExtend xs d a) d b"
  by (induction a arbitrary: xs) simp_all

lemma lzExtend_chunk:
  "k \<le> d \<Longrightarrow> d \<le> length xs \<Longrightarrow> lzExtend xs d k = xs @ take k (drop (length xs - d) xs)"
proof (induction k arbitrary: xs)
  case 0
  show ?case by simp
next
  case (Suc k)
  let ?x = "xs ! (length xs - d)"
  from Suc.prems have d: "0 < d" "length xs - d < length xs" by simp_all
  have "lzExtend xs d (Suc k) = lzExtend (xs @ [?x]) d k" by simp
  also have "\<dots> = (xs @ [?x]) @ take k (drop (length (xs @ [?x]) - d) (xs @ [?x]))"
    using Suc.prems by (intro Suc.IH) simp_all
  also have "drop (length (xs @ [?x]) - d) (xs @ [?x]) = drop (Suc (length xs - d)) xs @ [?x]"
    using Suc.prems by (simp add: Suc_diff_le)
  also have "take k (drop (Suc (length xs - d)) xs @ [?x]) = take k (drop (Suc (length xs - d)) xs)"
    using Suc.prems by simp
  also have "(xs @ [?x]) @ take k (drop (Suc (length xs - d)) xs)
               = xs @ take (Suc k) (drop (length xs - d) xs)"
    using d by (simp add: Cons_nth_drop_Suc [symmetric])
  finally show ?case .
qed

lemma lzExtend_window:
  "d \<le> length w \<Longrightarrow> 0 < d \<Longrightarrow> lzExtend (pre @ w) d n = pre @ lzExtend w d n"
proof (induction n arbitrary: w)
  case 0
  show ?case by simp
next
  case (Suc n)
  have "length (pre @ w) - d = length pre + (length w - d)" using Suc.prems by simp
  then have "(pre @ w) ! (length (pre @ w) - d) = w ! (length w - d)"
    by (simp only: nth_append_length_plus)
  then show ?case using Suc.prems Suc.IH [of "w @ [w ! (length w - d)]"] by simp
qed

lemma write_emitted:
  assumes "wfOutput out" and "writeAt (outBuffer out) (used out) chunk = Inr buf"
  shows "wfOutput (out\<lparr>outBuffer := buf, used := used out + int (length chunk)\<rparr>)
         \<and> emitted (out\<lparr>outBuffer := buf, used := used out + int (length chunk)\<rparr>)
             = emitted out @ chunk"
proof -
  from assms(2) have u: "0 \<le> used out"
    and l: "used out + int (length chunk) \<le> int (length (outBuffer out))"
    and b: "buf = take (nat (used out)) (outBuffer out) @ chunk
                  @ drop (nat (used out) + length chunk) (outBuffer out)"
    by (auto simp: writeAt_Inr)
  from u l have n: "nat (used out) \<le> length (outBuffer out)" by linarith
  have lb: "length buf = length (outBuffer out)" using u l n unfolding b by simp
  have e: "emitted (out\<lparr>outBuffer := buf, used := used out + int (length chunk)\<rparr>)
             = emitted out @ chunk"
    using u n by (simp add: emitted_def b nat_add_distrib min_def)
  from assms(1) l lb have "wfOutput (out\<lparr>outBuffer := buf, used := used out + int (length chunk)\<rparr>)"
    by (simp add: wfOutput_def)
  with e show ?thesis by simp
qed

lemma wf_emitted_length: "wfOutput out \<Longrightarrow> length (emitted out) = nat (used out)"
  unfolding wfOutput_def emitted_def by simp linarith

lemma addBytes_frame:
  assumes "wfOutput out" and "addBytes bs out = Inr out1"
  shows "wfOutput out1 \<and> emitted out1 = emitted out @ bs \<and> sameFrame out out1"
proof -
  from assms(2) obtain buf where w: "writeAt (outBuffer out) (used out) bs = Inr buf"
    and o: "out1 = out\<lparr>outBuffer := buf, used := used out + int (length bs)\<rparr>"
    by (auto simp: addBytes_def split: sum.splits)
  from write_emitted [OF assms(1) w] o show ?thesis by (simp add: sameFrame_def)
qed

lemma addByte_frame:
  assumes "wfOutput out" and "addByte b out = Inr out1"
  shows "wfOutput out1 \<and> emitted out1 = emitted out @ [b] \<and> sameFrame out out1"
proof -
  from assms(2) obtain buf where w: "writeAt (outBuffer out) (used out) [b] = Inr buf"
    and o: "out1 = out\<lparr>outBuffer := buf, used := used out + 1\<rparr>"
    by (auto simp: addByte_def split: sum.splits)
  from write_emitted [OF assms(1) w] o show ?thesis by (simp add: sameFrame_def)
qed

lemma repeatLoop_frame_aux:
  assumes "repeatLoop len distance written out = Some res"
  shows "case res of
           Inl e \<Rightarrow> True
         | Inr out1 \<Rightarrow>
             wfOutput out \<longrightarrow>
               wfOutput out1 \<and> sameFrame out out1
               \<and> emitted out1 = lzExtend (emitted out) (nat distance) (nat (len - written))"
proof (rule repeatLoop.raw_induct [where P = "\<lambda>len distance written out res.
    case res of
      Inl e \<Rightarrow> True
    | Inr out1 \<Rightarrow>
        wfOutput out \<longrightarrow>
          wfOutput out1 \<and> sameFrame out out1
          \<and> emitted out1 = lzExtend (emitted out) (nat distance) (nat (len - written))",
    OF _ assms], goal_cases)
  case (1 f len distance written out res)
  note IH = 1(1) and step = 1(2)
  show ?case
  proof (cases res)
    case (Inl e)
    then show ?thesis by simp
  next
    case (Inr out1)
    have "wfOutput out1 \<and> sameFrame out out1
          \<and> emitted out1 = lzExtend (emitted out) (nat distance) (nat (len - written))"
      if wf: "wfOutput out"
    proof (cases "written < len")
      case False
      with step Inr have "out1 = out" by simp
      with False wf show ?thesis by (simp add: sameFrame_def)
    next
      case lt: True
      define toWrite where "toWrite = min distance (len - written)"
      from step Inr lt have nd: "\<not> distance > used out" by (auto split: if_splits)
      from step Inr lt nd obtain moved buf
        where sp: "spanAt (outBuffer out) (used out - distance) toWrite = Inr moved"
          and wr: "writeAt (outBuffer out) (used out) moved = Inr buf"
          and rec: "f len distance (written + toWrite)
                      (out\<lparr>outBuffer := buf, used := used out + toWrite\<rparr>) = Some (Inr out1)"
        by (auto simp: Let_def toWrite_def split: sum.splits)
      from sp have s0: "0 \<le> used out - distance" and t0: "0 \<le> toWrite"
        and mv: "moved = take (nat toWrite) (drop (nat (used out - distance)) (outBuffer out))"
        by (auto simp: spanAt_Inr)
      from t0 lt have d0: "0 \<le> distance" by (simp add: toWrite_def)
      from wf have u: "used out \<le> int (length (outBuffer out))" and u0: "0 \<le> used out"
        by (auto simp: wfOutput_def)
      have td: "toWrite \<le> distance" by (simp add: toWrite_def)
      have lm: "int (length moved) = toWrite"
        using mv s0 t0 td u by simp
      let ?out' = "out\<lparr>outBuffer := buf, used := used out + toWrite\<rparr>"
      from write_emitted [OF wf wr] lm
      have wf': "wfOutput ?out'" and em': "emitted ?out' = emitted out @ moved" by simp_all
      have le: "length (emitted out) = nat (used out)" by (rule wf_emitted_length [OF wf])
      have mv2: "moved = take (nat toWrite) (drop (length (emitted out) - nat distance) (emitted out))"
      proof -
        have "take (nat toWrite) (drop (nat (used out - distance)) (outBuffer out))
                = take (nat toWrite) (drop (nat (used out - distance)) (emitted out))"
          using s0 t0 td u0 d0 by (simp add: emitted_def drop_take min_def)
        moreover have "nat (used out - distance) = length (emitted out) - nat distance"
          using le s0 d0 by simp
        ultimately show ?thesis using mv by simp
      qed
      have chunk: "lzExtend (emitted out) (nat distance) (nat toWrite) = emitted out @ moved"
        unfolding mv2 using td t0 d0 s0 le by (intro lzExtend_chunk) simp_all
      from IH [OF rec] wf'
      have w1: "wfOutput out1" and fr: "sameFrame ?out' out1"
        and e1: "emitted out1
                   = lzExtend (emitted ?out') (nat distance) (nat (len - (written + toWrite)))"
        by simp_all
      have tl: "toWrite \<le> len - written" by (simp add: toWrite_def)
      have "nat (len - written) = nat toWrite + nat (len - (written + toWrite))"
        using t0 tl by simp
      then have "lzExtend (emitted out) (nat distance) (nat (len - written))
                   = lzExtend (emitted out @ moved) (nat distance) (nat (len - (written + toWrite)))"
        by (simp add: lzExtend_add chunk)
      with e1 em' w1 fr show ?thesis by (simp add: sameFrame_def)
    qed
    with Inr show ?thesis by simp
  qed
qed

lemma repeatSequence_frame:
  assumes "wfOutput out" and "repeatSequence len distance out = Some (Inr out1)"
  shows "wfOutput out1 \<and> sameFrame out out1
         \<and> emitted out1 = lzExtend (emitted out) (nat distance) (nat len)"
proof -
  from assms(2) have "repeatLoop len distance 0 out = Some (Inr out1)"
    by (auto simp: repeatSequence_def split: sum.splits)
  from repeatLoop_frame_aux [OF this] assms(1) show ?thesis by simp
qed

lemma repeatSequence_distance:
  assumes "wfOutput out" and "repeatSequence len distance out = Some (Inr out1)" and "0 < len"
  shows "0 < distance \<and> distance \<le> used out"
proof -
  from assms(2) have r: "repeatLoop len distance 0 out = Some (Inr out1)"
    by (auto simp: repeatSequence_def split: sum.splits)
  have nz: "distance \<noteq> 0"
  proof
    assume "distance = 0"
    with repeatLoop_zero_distance [of 0 len out] assms(3) r assms(1) show False
      by (simp add: wfOutput_def)
  qed
  from r assms(3) have nd: "\<not> distance > used out"
    by (subst (asm) repeatLoop.simps) (auto split: if_splits)
  from r assms(3) nd obtain moved
    where "spanAt (outBuffer out) (used out - distance) (min distance (len - 0)) = Inr moved"
    by (subst (asm) repeatLoop.simps) (auto simp: Let_def split: sum.splits)
  then have "0 \<le> min distance len" by (simp add: spanAt_Inr)
  with nz nd show ?thesis by simp
qed

lemma consume_returns:
  assumes wf: "wfOutput out" and c: "consume S k out = Inr (batch, out1)"
  shows "batch = drop (nat (consumed out)) (emitted out)
         \<and> wfOutput out1 \<and> consumed out1 = used out1
         \<and> (\<exists>n. n \<le> nat (consumed out) \<and> emitted out1 = drop n (emitted out))
         \<and> checksum out1 = checksumFold S (checksum out) batch
         \<and> expectsMore out1 = expectsMore out"
proof (cases "expectsMore out")
  case False
  from wf have b: "0 \<le> consumed out" "consumed out \<le> used out"
    "used out \<le> int (length (outBuffer out))" by (auto simp: wfOutput_def)
  from c False have s: "spanAt (outBuffer out) (consumed out) (used out - consumed out) = Inr batch"
    and o: "out1 = out\<lparr>checksum := checksumFold S (checksum out) batch, consumed := used out\<rparr>"
    by (auto simp: consume_def split: sum.splits)
  from s have "batch = take (nat (used out - consumed out)) (drop (nat (consumed out)) (outBuffer out))"
    by (simp add: spanAt_Inr)
  also have "\<dots> = drop (nat (consumed out)) (emitted out)"
    using b by (simp add: emitted_def drop_take nat_diff_distrib)
  finally have bt: "batch = drop (nat (consumed out)) (emitted out)" .
  have e: "emitted out1 = drop 0 (emitted out)" by (simp add: o emitted_def)
  have "wfOutput out1" using b by (simp add: o wfOutput_def)
  with bt e o False show ?thesis by auto
next
  case True
  from wf have b: "0 \<le> consumed out" "consumed out \<le> used out"
    "used out \<le> int (length (outBuffer out))" by (auto simp: wfOutput_def)
  define bytesKept0 where "bytesKept0 = min k (consumed out)"
  define minimum where "minimum = minOutputBufferSize S - used out + consumed out"
  define bytesKept where "bytesKept = (if bytesKept0 < minimum then minimum else bytesKept0)"
  define removing where "removing = consumed out - bytesKept"
  have rm: "(if bytesKept0 < minimum then consumed out - bytesKept else consumed out - bytesKept0)
              = removing"
    by (simp add: removing_def bytesKept_def)
  from c True obtain moved buf
    where r0: "\<not> removing < 0"
      and sp: "spanAt (outBuffer out) removing (used out - removing) = Inr moved"
      and wr: "writeAt (outBuffer out) 0 moved = Inr buf"
      and sb: "spanAt buf bytesKept (used out - removing - bytesKept) = Inr batch"
      and o: "out1 = out\<lparr>outBuffer := buf, used := used out - removing,
                          consumed := used out - removing,
                          checksum := checksumFold S (checksum out) batch\<rparr>"
    unfolding consume_def Let_def bytesKept0_def [symmetric] minimum_def [symmetric]
      bytesKept_def [symmetric] rm
    by (auto split: sum.splits if_splits)
  from sp have r1: "removing \<le> used out"
    and mv: "moved = take (nat (used out - removing)) (drop (nat removing) (outBuffer out))"
    by (auto simp: spanAt_Inr)
  have le: "length (emitted out) = nat (used out)" by (rule wf_emitted_length [OF wf])
  have mv2: "moved = drop (nat removing) (emitted out)"
    using r0 r1 b unfolding mv by (simp add: emitted_def drop_take nat_diff_distrib)
  have lm: "length moved = nat (used out - removing)"
    using r0 r1 le by (simp add: mv2 nat_diff_distrib)
  from wr have bf: "buf = moved @ drop (length moved) (outBuffer out)"
    and lb: "int (length moved) \<le> int (length (outBuffer out))"
    by (auto simp: writeAt_Inr)
  from sb have k0: "0 \<le> bytesKept" and k1: "bytesKept \<le> used out - removing"
    and bt: "batch = take (nat (used out - removing - bytesKept)) (drop (nat bytesKept) buf)"
    by (auto simp: spanAt_Inr)
  have rc: "removing + bytesKept = consumed out" by (simp add: removing_def)
  have "drop (nat bytesKept) buf = drop (nat bytesKept) moved @ drop (length moved) (outBuffer out)"
    using k0 k1 lm by (simp add: bf)
  then have "batch = drop (nat bytesKept) moved"
    using bt lm k0 k1 by (simp add: nat_diff_distrib)
  also have "\<dots> = drop (nat bytesKept + nat removing) (emitted out)" by (simp add: mv2)
  also have "nat bytesKept + nat removing = nat (consumed out)" using k0 r0 rc by simp
  finally have bt2: "batch = drop (nat (consumed out)) (emitted out)" .
  have e: "emitted out1 = drop (nat removing) (emitted out)"
    using lm by (simp add: o emitted_def bf mv2)
  have n: "nat removing \<le> nat (consumed out)" using k0 rc by simp
  have lbuf: "length buf = length (outBuffer out)" using lb by (simp add: bf)
  have "wfOutput out1" using r0 r1 b lbuf by (simp add: o wfOutput_def)
  with bt2 e n o True show ?thesis by auto
qed

lemma foldl_foldl_concat: "foldl (foldl f) a xss = foldl f a (concat xss)"
  by (induction xss arbitrary: a) simp_all

lemma lzExtend_prefix: "\<exists>ys. lzExtend xs d n = xs @ ys"
proof (induction n arbitrary: xs)
  case 0
  show ?case by simp
next
  case (Suc n)
  from Suc [of "xs @ [xs ! (length xs - d)]"] show ?case by auto
qed

lemma sessionStep_invariant:
  assumes inv: "sessionInvariant S s" and st: "sessionStep S c s = Some (Inr s1)"
  shows "sessionInvariant S s1"
proof -
  let ?out = "sessionOutput s"
  from inv have wf: "wfOutput ?out"
    and cs: "checksum ?out = foldl (checksumFold S) (checksumInit S) (returnedSlices s)"
    by (simp_all add: sessionInvariant_def)
  from inv obtain pre where p1: "emittedStream s = pre @ emitted ?out"
    and p2: "concat (returnedSlices s) = pre @ take (nat (consumed ?out)) (emitted ?out)"
    by (auto simp: sessionInvariant_def)
  have le: "length (emitted ?out) = nat (used ?out)" by (rule wf_emitted_length [OF wf])
  from wf have cu: "nat (consumed ?out) \<le> length (emitted ?out)"
    unfolding le wfOutput_def by auto
  have emit: "sessionInvariant S (s\<lparr>sessionOutput := out1, emittedStream := emittedStream s @ ys\<rparr>)"
    if "wfOutput out1" and "emitted out1 = emitted ?out @ ys" and "sameFrame ?out out1" for out1 ys
    using that cs p1 p2 cu unfolding sessionInvariant_def sameFrame_def
    by (auto intro!: exI [of _ pre])
  show ?thesis
  proof (cases c)
    case (AddByte b)
    with st obtain out1 where a: "addByte b ?out = Inr out1"
      and s1: "s1 = s\<lparr>sessionOutput := out1, emittedStream := emittedStream s @ [b]\<rparr>"
      by (auto split: sum.splits)
    from addByte_frame [OF wf a] show ?thesis unfolding s1 by (intro emit) simp_all
  next
    case (AddBytes bs)
    with st obtain out1 where a: "addBytes bs ?out = Inr out1"
      and s1: "s1 = s\<lparr>sessionOutput := out1, emittedStream := emittedStream s @ bs\<rparr>"
      by (auto split: sum.splits)
    from addBytes_frame [OF wf a] show ?thesis unfolding s1 by (intro emit) simp_all
  next
    case (RepeatSequence len distance)
    with st obtain out1 where a: "repeatSequence len distance ?out = Some (Inr out1)"
      and s1: "s1 = s\<lparr>sessionOutput := out1,
                        emittedStream := lzExtend (emittedStream s) (nat distance) (nat len)\<rparr>"
      by (auto split: option.splits sum.splits)
    from repeatSequence_frame [OF wf a]
    have w1: "wfOutput out1" and fr: "sameFrame ?out out1"
      and e1: "emitted out1 = lzExtend (emitted ?out) (nat distance) (nat len)" by simp_all
    obtain ys where ys: "lzExtend (emitted ?out) (nat distance) (nat len) = emitted ?out @ ys"
      using lzExtend_prefix by blast
    have st: "lzExtend (emittedStream s) (nat distance) (nat len) = emittedStream s @ ys"
    proof (cases "0 < len")
      case False
      with ys show ?thesis by simp
    next
      case True
      from repeatSequence_distance [OF wf a True] le
      have "nat distance \<le> length (emitted ?out)" "0 < nat distance" by auto
      from lzExtend_window [OF this, of pre "nat len"] ys p1 show ?thesis by simp
    qed
    from w1 fr e1 ys show ?thesis unfolding s1 st using emit [of out1 ys] by simp
  next
    case (Consume k)
    with st obtain batch out1 where a: "consume S k ?out = Inr (batch, out1)"
      and s1: "s1 = s\<lparr>sessionOutput := out1, returnedSlices := returnedSlices s @ [batch]\<rparr>"
      by (auto split: sum.splits)
    from consume_returns [OF wf a] obtain n
      where bt: "batch = drop (nat (consumed ?out)) (emitted ?out)"
        and w1: "wfOutput out1" and c1: "consumed out1 = used out1"
        and n: "n \<le> nat (consumed ?out)" and e1: "emitted out1 = drop n (emitted ?out)"
        and k1: "checksum out1 = checksumFold S (checksum ?out) batch"
      by auto
    have l1: "length (emitted out1) = nat (used out1)" by (rule wf_emitted_length [OF w1])
    have full: "concat (returnedSlices s @ [batch]) = pre @ emitted ?out"
      using p2 bt by simp
    have "emittedStream s = (pre @ take n (emitted ?out)) @ emitted out1"
      using p1 e1 by simp
    moreover have "concat (returnedSlices s @ [batch])
                     = (pre @ take n (emitted ?out)) @ take (nat (consumed out1)) (emitted out1)"
      using full e1 c1 l1 by simp
    moreover have "checksum out1
                     = foldl (checksumFold S) (checksumInit S) (returnedSlices s @ [batch])"
      using k1 cs by simp
    ultimately show ?thesis using w1 unfolding s1 sessionInvariant_def
      by (auto intro!: exI [of _ "pre @ take n (emitted ?out)"])
  next
    case Done
    with st have s1: "s1 = s\<lparr>sessionOutput := outputDone ?out\<rparr>" by simp
    show ?thesis
      using inv unfolding s1 sessionInvariant_def outputDone_def
      by (simp add: wfOutput_def emitted_def)
  qed
qed

lemma session_invariant:
  "sessionInvariant S s0 \<Longrightarrow> session S calls s0 = Some (s, failure) \<Longrightarrow> sessionInvariant S s"
proof (induction calls arbitrary: s0)
  case Nil
  then show ?case by simp
next
  case (Cons c cs)
  show ?case
  proof (cases "sessionStep S c s0")
    case None
    with Cons.prems show ?thesis by simp
  next
    case (Some r)
    show ?thesis
    proof (cases r)
      case (Inl e)
      with Some Cons.prems show ?thesis by simp
    next
      case (Inr s1)
      with Some Cons.prems have "session S cs s1 = Some (s, failure)" by simp
      with Cons.IH [OF sessionStep_invariant [OF Cons.prems(1) Some [unfolded Inr]]]
      show ?thesis by simp
    qed
  qed
qed

lemma session_ends_with_consume:
  "sessionInvariant S s0 \<Longrightarrow> session S (before @ [Consume k]) s0 = Some (s, None)
     \<Longrightarrow> consumed (sessionOutput s) = used (sessionOutput s)"
proof (induction before arbitrary: s0)
  case Nil
  from Nil.prems(2) obtain batch out1
    where a: "consume S k (sessionOutput s0) = Inr (batch, out1)"
      and s: "s = s0\<lparr>sessionOutput := out1, returnedSlices := returnedSlices s0 @ [batch]\<rparr>"
    by (auto split: sum.splits)
  from Nil.prems(1) have "wfOutput (sessionOutput s0)" by (simp add: sessionInvariant_def)
  from consume_returns [OF this a] s show ?case by simp
next
  case (Cons c cs)
  from Cons.prems(2) obtain s1 where st: "sessionStep S c s0 = Some (Inr s1)"
    and r: "session S (cs @ [Consume k]) s1 = Some (s, None)"
    by (auto split: option.splits sum.splits)
  from Cons.IH [OF sessionStep_invariant [OF Cons.prems(1) st] r] show ?case .
qed

lemma newSession_invariant: "sessionInvariant S (newSession S)"
  by (simp add: sessionInvariant_def newSession_def newByteOutput_def wfOutput_def emitted_def)

lemma session_returns:
  "(\<forall>c \<in> set calls. \<forall>len distance. c = RepeatSequence len distance \<longrightarrow> 1 \<le> distance)
     \<Longrightarrow> \<exists>r. session S calls s0 = Some r"
proof (induction calls arbitrary: s0)
  case Nil
  show ?case by simp
next
  case (Cons c cs)
  have "\<exists>r. sessionStep S c s0 = Some r"
  proof (cases c)
    case (RepeatSequence len distance)
    with Cons.prems have "1 \<le> distance" by simp
    from repeatSequence_returns [OF this, of len "sessionOutput s0"] RepeatSequence
    show ?thesis by (auto split: sum.splits)
  qed (auto split: sum.splits)
  then obtain r where r: "sessionStep S c s0 = Some r" by blast
  show ?case
  proof (cases r)
    case (Inl e)
    with r show ?thesis by simp
  next
    case (Inr s1)
    from Cons.IH [of s1] Cons.prems obtain r1 where "session S cs s1 = Some r1" by auto
    with r Inr show ?thesis by simp
  qed
qed

text \<open>
  Claim C8.  In every session that starts with a new output, whatever calls it is made of and
  also when it ends with a failure: the spans returned by \<open>consume\<close> so far, one after the
  other, followed by the valid bytes of the buffer behind \<open>consumed\<close>, are the stream emitted
  so far, and the state of the checksum is the initial state with the returned spans folded into
  it one by one in the order of their return.  After a \<open>consume\<close> that has returned nothing is
  left behind \<open>consumed\<close>: the spans returned are exactly the stream emitted.  For a checksum
  that folds byte by byte the state is the fold over the returned bytes, each once and in the
  order of emission.  The span is folded into the checksum in the call of \<open>consume\<close> that
  returns it, and it is the valid bytes not returned before.  A session in which every match has
  a distance of at least 1 returns.
\<close>

theorem C8_consume_slices:
  "(session S calls (newSession S) = Some (s, failure)
      \<longrightarrow> concat (returnedSlices s)
            @ drop (nat (consumed (sessionOutput s))) (emitted (sessionOutput s))
          = emittedStream s
          \<and> checksum (sessionOutput s)
              = foldl (checksumFold S) (checksumInit S) (returnedSlices s))
   \<and> (session S (before @ [Consume k]) (newSession S) = Some (s, None)
      \<longrightarrow> concat (returnedSlices s) = emittedStream s)
   \<and> (session S calls (newSession S) = Some (s, failure) \<and> checksumFold S = foldl step
      \<longrightarrow> checksum (sessionOutput s) = foldl step (checksumInit S) (concat (returnedSlices s)))
   \<and> (consume S k out = Inr (batch, out1)
      \<longrightarrow> checksum out1 = checksumFold S (checksum out) batch)
   \<and> (wfOutput out \<and> consume S k out = Inr (batch, out1)
      \<longrightarrow> batch = drop (nat (consumed out)) (emitted out) \<and> consumed out1 = used out1)
   \<and> ((\<forall>c \<in> set calls. \<forall>len distance. c = RepeatSequence len distance \<longrightarrow> 1 \<le> distance)
      \<longrightarrow> (\<exists>r. session S calls (newSession S) = Some r))"
proof (intro conjI impI)
  assume a: "session S calls (newSession S) = Some (s, failure)"
  note inv = session_invariant [OF newSession_invariant a]
  then obtain pre where p1: "emittedStream s = pre @ emitted (sessionOutput s)"
    and p2: "concat (returnedSlices s)
               = pre @ take (nat (consumed (sessionOutput s))) (emitted (sessionOutput s))"
    by (auto simp: sessionInvariant_def)
  from p1 p2 show "concat (returnedSlices s)
            @ drop (nat (consumed (sessionOutput s))) (emitted (sessionOutput s))
          = emittedStream s" by simp
  from inv show "checksum (sessionOutput s)
              = foldl (checksumFold S) (checksumInit S) (returnedSlices s)"
    by (simp add: sessionInvariant_def)
next
  assume a: "session S (before @ [Consume k]) (newSession S) = Some (s, None)"
  note inv = session_invariant [OF newSession_invariant a]
  then obtain pre where p1: "emittedStream s = pre @ emitted (sessionOutput s)"
    and p2: "concat (returnedSlices s)
               = pre @ take (nat (consumed (sessionOutput s))) (emitted (sessionOutput s))"
    by (auto simp: sessionInvariant_def)
  from inv have "wfOutput (sessionOutput s)" by (simp add: sessionInvariant_def)
  then have "length (emitted (sessionOutput s)) = nat (used (sessionOutput s))"
    by (rule wf_emitted_length)
  with session_ends_with_consume [OF newSession_invariant a] p1 p2
  show "concat (returnedSlices s) = emittedStream s" by simp
next
  assume a: "session S calls (newSession S) = Some (s, failure) \<and> checksumFold S = foldl step"
  then have "checksum (sessionOutput s)
               = foldl (foldl step) (checksumInit S) (returnedSlices s)"
    using session_invariant [OF newSession_invariant conjunct1 [OF a]]
    by (simp add: sessionInvariant_def)
  then show "checksum (sessionOutput s) = foldl step (checksumInit S) (concat (returnedSlices s))"
    by (simp add: foldl_foldl_concat)
next
  assume "consume S k out = Inr (batch, out1)"
  then show "checksum out1 = checksumFold S (checksum out) batch"
    by (auto simp: consume_def Let_def split: if_splits sum.splits)
next
  assume a: "wfOutput out \<and> consume S k out = Inr (batch, out1)"
  then have "batch = drop (nat (consumed out)) (emitted out) \<and> consumed out1 = used out1"
    using consume_returns [of out S k batch out1] by blast
  then show "batch = drop (nat (consumed out)) (emitted out)" and "consumed out1 = used out1"
    by simp_all
next
  assume "\<forall>c \<in> set calls. \<forall>len distance. c = RepeatSequence len distance \<longrightarrow> 1 \<le> distance"
  then show "\<exists>r. session S calls (newSession S) = Some r" by (rule session_returns)
qed

text \<open>The theorem at a session of 14 bytes, a match of length 5 at distance 2 and three calls
  of \<open>consume\<close> (the second moves the buffer by 6 bytes), with \<open>LightCrc32\<close>; and at one call
  of \<open>consume\<close> on an output of which 3 of 8 bytes have been returned.\<close>

theorem C8_consume_slices_witness:
  "session crcSettings exampleCalls (newSession crcSettings) = Some (exampleSessionEnd, None)
   \<and> emittedStream exampleSessionEnd
       = [1, 2, 3, 4, 5, 6, 7, 8, 9, 10, 11, 12, 13, 14, 13, 14, 13, 14, 13]
   \<and> returnedSlices exampleSessionEnd
       = [[1, 2, 3, 4, 5, 6, 7, 8, 9, 10, 11, 12], [13, 14], [13, 14, 13, 14, 13]]
   \<and> concat (returnedSlices exampleSessionEnd) = emittedStream exampleSessionEnd
   \<and> checksum (sessionOutput exampleSessionEnd)
       = foldl lightCrc32Step 0xffffffff (concat (returnedSlices exampleSessionEnd))
   \<and> checksum (sessionOutput exampleSessionEnd)
       = foldl lightCrc32Fold 0xffffffff (returnedSlices exampleSessionEnd)
   \<and> (\<exists>r. session crcSettings exampleCalls (newSession crcSettings) = Some r)
   \<and> consume crcSettings 0 exampleOutput = Inr ([4, 5, 6, 7, 8], exampleOutputAfter)
   \<and> checksum exampleOutputAfter = lightCrc32Fold 0 [4, 5, 6, 7, 8]
   \<and> [4, 5, 6, 7, 8] = drop 3 (emitted exampleOutput)
   \<and> consumed exampleOutputAfter = used exampleOutputAfter"
proof -
  have g: "consume crcSettings 0 exampleOutput = Inr ([4, 5, 6, 7, 8], exampleOutputAfter)"
    by code_simp
  have w: "wfOutput exampleOutput" by code_simp
  have c5: "checksum exampleOutputAfter = lightCrc32Fold 0 [4, 5, 6, 7, 8]"
    using C8_consume_slices [where S = crcSettings and k = 0 and out = exampleOutput
        and batch = "[4, 5, 6, 7, 8]" and ?out1.0 = exampleOutputAfter,
        THEN conjunct2, THEN conjunct2, THEN conjunct2, THEN conjunct1] g
    by (simp add: crcSettings_def exampleOutput_def)
  have k3: "nat (consumed exampleOutput) = 3" by (simp add: exampleOutput_def)
  have c6: "[4, 5, 6, 7, 8] = drop 3 (emitted exampleOutput)
            \<and> consumed exampleOutputAfter = used exampleOutputAfter"
    using C8_consume_slices [where S = crcSettings and k = 0 and out = exampleOutput
        and batch = "[4, 5, 6, 7, 8]" and ?out1.0 = exampleOutputAfter,
        THEN conjunct2, THEN conjunct2, THEN conjunct2, THEN conjunct2, THEN conjunct1] g w k3
    by simp
  have h: "session crcSettings exampleCalls (newSession crcSettings) = Some (exampleSessionEnd, None)"
    by code_simp
  have e: "emittedStream exampleSessionEnd
       = [1, 2, 3, 4, 5, 6, 7, 8, 9, 10, 11, 12, 13, 14, 13, 14, 13, 14, 13]"
    by code_simp
  have r: "returnedSlices exampleSessionEnd
       = [[1, 2, 3, 4, 5, 6, 7, 8, 9, 10, 11, 12], [13, 14], [13, 14, 13, 14, 13]]"
    by code_simp
  have f: "checksumFold crcSettings = foldl lightCrc32Step"
    by (simp add: crcSettings_def lightCrc32Fold_def fun_eq_iff)
  have f2: "checksumFold crcSettings = lightCrc32Fold" by (simp add: crcSettings_def)
  have i: "checksumInit crcSettings = 0xffffffff" by (simp add: crcSettings_def)
  have l: "exampleCalls
             = [AddBytes [1, 2, 3, 4, 5, 6, 7, 8, 9, 10, 11, 12], Consume 0, AddByte 13, AddByte 14,
                Consume 0, RepeatSequence 5 2, Done] @ [Consume 0]"
    by (simp add: exampleCalls_def)
  have c1: "concat (returnedSlices exampleSessionEnd) = emittedStream exampleSessionEnd"
    using C8_consume_slices [where S = crcSettings and s = exampleSessionEnd and k = 0
        and before = "[AddBytes [1, 2, 3, 4, 5, 6, 7, 8, 9, 10, 11, 12], Consume 0, AddByte 13,
                       AddByte 14, Consume 0, RepeatSequence 5 2, Done]",
        THEN conjunct2, THEN conjunct1] h
    unfolding l by simp
  have c2: "checksum (sessionOutput exampleSessionEnd)
       = foldl lightCrc32Step 0xffffffff (concat (returnedSlices exampleSessionEnd))"
    using C8_consume_slices [where S = crcSettings and s = exampleSessionEnd
        and calls = exampleCalls and failure = None and step = lightCrc32Step,
        THEN conjunct2, THEN conjunct2, THEN conjunct1] h f
    by (simp add: i)
  have c3: "checksum (sessionOutput exampleSessionEnd)
       = foldl lightCrc32Fold 0xffffffff (returnedSlices exampleSessionEnd)"
    using C8_consume_slices [where S = crcSettings and s = exampleSessionEnd
        and calls = exampleCalls and failure = None, THEN conjunct1] h
    by (simp add: i f2)
  have d: "\<forall>c \<in> set exampleCalls. \<forall>len distance. c = RepeatSequence len distance \<longrightarrow> 1 \<le> distance"
    by (simp add: exampleCalls_def)
  have c4: "\<exists>r. session crcSettings exampleCalls (newSession crcSettings) = Some r"
    using C8_consume_slices [where S = crcSettings and calls = exampleCalls,
        THEN conjunct2, THEN conjunct2, THEN conjunct2, THEN conjunct2, THEN conjunct2] d
    by blast
  show ?thesis using h e r c1 c2 c3 c4 g c5 c6 by blast
qed

end
